theory Spec2Isabelle
  imports Complex_Main "HOL-Library.Multiset"
begin

section \<open>dnstest: a DNS resolver benchmark\<close>

text \<open>
  The development embeds the query engine of \<^verbatim>\<open>dnstest.py\<close>: \<^verbatim>\<open>query_domain\<close>
  (the classifier of one lookup), the semaphore-guarded \<^verbatim>\<open>limited_query\<close>, the
  result loop of \<^verbatim>\<open>run_test\<close> and the summary it prints.

  Conventions of the embedding.
  \<^item> Readings of \<^verbatim>\<open>time.perf_counter()\<close> and the durations computed from them are
    \<open>real\<close> numbers: Python's binary floating point is idealised to exact arithmetic.
  \<^item> A Python exception raised by a library call is a value of \<open>py_error\<close>; a function
    that can raise returns \<open>py_error + 'a\<close>, with \<open>Inl\<close> for the raise.
  \<^item> Each \<^verbatim>\<open>print\<close> of the source is one constructor of \<open>line\<close>, carrying the
    values that the f-string formats; the textual formatting (\<^verbatim>\<open>:.2f\<close>) is not modelled.
\<close>

subsection \<open>Configuration constants\<close>

definition QUERY_TYPE :: string where
  "QUERY_TYPE = ''A''"

definition TIMEOUT :: real where
  "TIMEOUT = 2"

definition CONCURRENT_REQUESTS :: nat where
  "CONCURRENT_REQUESTS = 50"

subsection \<open>Errors as values\<close>

datatype py_error = StatisticsError | ValueError | ZeroDivisionError

definition bindE :: "'e + 'a \<Rightarrow> ('a \<Rightarrow> 'e + 'b) \<Rightarrow> 'e + 'b" where
  "bindE m f = (case m of Inl e \<Rightarrow> Inl e | Inr x \<Rightarrow> f x)"

definition py_div :: "real \<Rightarrow> real \<Rightarrow> py_error + real" where
  "py_div a b = (if b = 0 then Inl ZeroDivisionError else Inr (a / b))"

subsection \<open>The resolver's outcomes and \<^verbatim>\<open>query_domain\<close>\<close>

text \<open>
  \<^verbatim>\<open>resolver.resolve\<close> either returns an answer or raises. The \<^verbatim>\<open>except\<close> chain of
  \<^verbatim>\<open>query_domain\<close> tells four cases apart by the class of the exception:
  \<^verbatim>\<open>dns.resolver.NXDOMAIN\<close>, \<^verbatim>\<open>dns.resolver.NoAnswer\<close>, \<^verbatim>\<open>dns.resolver.Timeout\<close>
  (each with its subclasses), and any other subclass of \<^verbatim>\<open>Exception\<close>, of which the
  code reads \<^verbatim>\<open>type(e).__name__\<close> only. An exception value is its class together
  with its message text. Interrupts that do not derive from \<^verbatim>\<open>Exception\<close> are not
  outcomes of a lookup and are outside the model.
\<close>

datatype exc_class = NXDOMAIN | NoAnswer | Timeout | OtherException string

record dns_exception =
  exc_type :: exc_class
  exc_message :: string

datatype resolve_outcome = Answer | Raises dns_exception

type_synonym query_result = "string \<times> real \<times> string option"

text \<open>
  \<open>query_domain start_time end_time outcome domain\<close>: the two clock readings are the
  one taken before the \<^verbatim>\<open>await\<close> and the one taken in the branch that handles the
  outcome. The result is \<^verbatim>\<open>(domain, time_taken, error_key)\<close>, \<open>None\<close> being Python's
  \<^verbatim>\<open>None\<close>.
\<close>

definition query_domain :: "real \<Rightarrow> real \<Rightarrow> resolve_outcome \<Rightarrow> string \<Rightarrow> query_result" where
  "query_domain start_time end_time outcome domain =
     (case outcome of
        Answer \<Rightarrow> (domain, end_time - start_time, None)
      | Raises e \<Rightarrow>
          (case exc_type e of
             NXDOMAIN \<Rightarrow> (domain, end_time - start_time, Some ''NXDOMAIN'')
           | NoAnswer \<Rightarrow> (domain, end_time - start_time, Some ''NoAnswer'')
           | Timeout \<Rightarrow> (domain, TIMEOUT, Some ''Timeout'')
           | OtherException error_name \<Rightarrow> (domain, end_time - start_time, Some error_name)))"

definition time_taken :: "query_result \<Rightarrow> real" where
  "time_taken r = fst (snd r)"

definition error_key :: "query_result \<Rightarrow> string option" where
  "error_key r = snd (snd r)"

subsection \<open>The accumulators of \<^verbatim>\<open>run_test\<close>\<close>

text \<open>
  \<^verbatim>\<open>error_counts\<close> is a Python \<^verbatim>\<open>dict\<close>, which keeps its keys in the order of their
  first insertion; \<^verbatim>\<open>sorted\<close> reads that order. The dictionary is therefore an
  association list in insertion order: storing under a key that is present replaces
  the value in place, storing under a new key appends.
\<close>

type_synonym error_dict = "(string \<times> nat) list"

fun dict_get :: "error_dict \<Rightarrow> string \<Rightarrow> nat \<Rightarrow> nat" where
  "dict_get [] k d = d"
| "dict_get ((k', v) # kvs) k d = (if k' = k then v else dict_get kvs k d)"

fun dict_set :: "error_dict \<Rightarrow> string \<Rightarrow> nat \<Rightarrow> error_dict" where
  "dict_set [] k v = [(k, v)]"
| "dict_set ((k', v') # kvs) k v =
     (if k' = k then (k, v) # kvs else (k', v') # dict_set kvs k v)"

record run_state =
  successful_lookups :: nat
  failed_lookups :: nat
  error_counts :: error_dict
  timings :: "real list"
  total_processed :: nat

definition initial_run_state :: run_state where
  "initial_run_state =
     \<lparr>successful_lookups = 0, failed_lookups = 0, error_counts = [], timings = [],
      total_processed = 0\<rparr>"

text \<open>Python's truth value of \<^verbatim>\<open>error_key\<close>: \<^verbatim>\<open>None\<close> and the empty string are false.\<close>

fun truthy :: "string option \<Rightarrow> bool" where
  "truthy None = False"
| "truthy (Some k) = (k \<noteq> [])"

text \<open>
  Lines 215 to 224: one pass of the result loop, \<open>i\<close> being the index that
  \<^verbatim>\<open>enumerate\<close> hands out.
\<close>

definition record_result :: "nat \<Rightarrow> query_result \<Rightarrow> run_state \<Rightarrow> run_state" where
  "record_result i r st =
     (let st1 = st\<lparr>total_processed := i + 1\<rparr> in
      if truthy (error_key r)
      then st1\<lparr>failed_lookups := failed_lookups st1 + 1,
               error_counts :=
                 dict_set (error_counts st1) (the (error_key r))
                   (dict_get (error_counts st1) (the (error_key r)) 0 + 1)\<rparr>
      else st1\<lparr>successful_lookups := successful_lookups st1 + 1,
               timings := timings st1 @ [time_taken r]\<rparr>)"

subsection \<open>The statistics library\<close>

text \<open>
  The functions of Python's \<^verbatim>\<open>statistics\<close> module and the built-ins \<^verbatim>\<open>min\<close> and
  \<^verbatim>\<open>max\<close> that the summary calls, with the exception each raises on a sequence that
  is too short. \<^verbatim>\<open>statistics.stdev\<close> is the square root of \<^verbatim>\<open>statistics.variance\<close>,
  the sum of squared deviations from the mean divided by \<open>n - 1\<close>. \<open>sqrt\<close> is the
  square root of the reals; on concrete inputs its values are derived with the
  simplifier.
\<close>

definition mean :: "real list \<Rightarrow> py_error + real" where
  "mean xs = (if xs = [] then Inl StatisticsError else Inr (sum_list xs / real (length xs)))"

definition median :: "real list \<Rightarrow> py_error + real" where
  "median xs =
     (let data = sort xs; n = length data in
      if n = 0 then Inl StatisticsError
      else if n mod 2 = 1 then Inr (data ! (n div 2))
      else Inr ((data ! (n div 2 - 1) + data ! (n div 2)) / 2))"

fun py_min :: "real list \<Rightarrow> py_error + real" where
  "py_min [] = Inl ValueError"
| "py_min (x # xs) = Inr (fold min xs x)"

fun py_max :: "real list \<Rightarrow> py_error + real" where
  "py_max [] = Inl ValueError"
| "py_max (x # xs) = Inr (fold max xs x)"

definition sum_sq_dev :: "real list \<Rightarrow> real" where
  "sum_sq_dev xs =
     (let c = sum_list xs / real (length xs) in sum_list (map (\<lambda>x. (x - c)\<^sup>2) xs))"

definition variance :: "real list \<Rightarrow> py_error + real" where
  "variance xs =
     (if length xs < 2 then Inl StatisticsError
      else Inr (sum_sq_dev xs / real (length xs - 1)))"

definition stdev :: "real list \<Rightarrow> py_error + real" where
  "stdev xs = bindE (variance xs) (\<lambda>var. Inr (sqrt var))"

text \<open>
  The population standard deviation as the specification names it (Python's
  \<^verbatim>\<open>statistics.pstdev\<close>, which the source does not call): the same sum divided by \<open>n\<close>.
\<close>

definition spec_population_stdev :: "real list \<Rightarrow> real" where
  "spec_population_stdev xs = sqrt (sum_sq_dev xs / real (length xs))"

subsection \<open>What \<^verbatim>\<open>run_test\<close> prints\<close>

datatype line =
    TestingDnsServers "string list"
  | QueryingDomains nat string
  | ConcurrentRequests nat
  | Progress real nat nat real nat nat
  | TestSummaryHeader
  | DnsServersTested "string list"
  | TotalDomainsTested nat
  | TotalProcessingTime real
  | SuccessfulLookups nat
  | FailedLookups nat
  | ErrorBreakdownHeader
  | ErrorEntry string nat
  | PerformanceMetricsHeader
  | AverageQueryTime real
  | MedianQueryTime real
  | MinQueryTime real
  | MaxQueryTime real
  | StandardDeviation real
  | OverallAverageQPS real
  | NoSuccessfulLookups

text \<open>
  \<^verbatim>\<open>sorted(items, key=..., reverse=True)\<close>: Python sorts stably, and with
  \<^verbatim>\<open>reverse=True\<close> it reverses the list, sorts it stably in ascending order and
  reverses the result, so that elements with equal keys keep their original order.
  \<open>sort_key\<close> is the stable insertion sort of the list library.
\<close>

definition sorted_reverse :: "('a \<Rightarrow> nat) \<Rightarrow> 'a list \<Rightarrow> 'a list" where
  "sorted_reverse key xs = rev (sort_key key (rev xs))"

definition sorted_errors :: "error_dict \<Rightarrow> error_dict" where
  "sorted_errors d = sorted_reverse snd d"

text \<open>Lines 240 to 245.\<close>

definition summary_head :: "string list \<Rightarrow> nat \<Rightarrow> real \<Rightarrow> run_state \<Rightarrow> line list" where
  "summary_head dns_servers n_domains total_duration st =
     [TestSummaryHeader, DnsServersTested dns_servers, TotalDomainsTested n_domains,
      TotalProcessingTime total_duration, SuccessfulLookups (successful_lookups st),
      FailedLookups (failed_lookups st)]"

text \<open>Lines 248 to 253.\<close>

definition error_breakdown :: "run_state \<Rightarrow> line list" where
  "error_breakdown st =
     (if failed_lookups st > 0
      then ErrorBreakdownHeader #
           map (\<lambda>(err_type, count). ErrorEntry err_type count) (sorted_errors (error_counts st))
      else [])"

text \<open>Lines 256 to 270.\<close>

definition performance_metrics :: "nat \<Rightarrow> real \<Rightarrow> run_state \<Rightarrow> py_error + line list" where
  "performance_metrics n_domains total_duration st =
     (if timings st \<noteq> [] then
        bindE (mean (timings st)) (\<lambda>avg.
        bindE (median (timings st)) (\<lambda>med.
        bindE (py_min (timings st)) (\<lambda>lo.
        bindE (py_max (timings st)) (\<lambda>hi.
        bindE (if length (timings st) > 1
               then bindE (stdev (timings st)) (\<lambda>sd. Inr [StandardDeviation (sd * 1000)])
               else Inr []) (\<lambda>sd_lines.
        bindE (if total_duration > 0
               then bindE (py_div (real n_domains) total_duration)
                      (\<lambda>final_qps. Inr [OverallAverageQPS final_qps])
               else Inr []) (\<lambda>qps_lines.
        Inr ([PerformanceMetricsHeader, AverageQueryTime (avg * 1000),
              MedianQueryTime (med * 1000), MinQueryTime (lo * 1000),
              MaxQueryTime (hi * 1000)] @ sd_lines @ qps_lines)))))))
      else Inr [NoSuccessfulLookups])"

definition print_summary ::
  "string list \<Rightarrow> nat \<Rightarrow> real \<Rightarrow> run_state \<Rightarrow> py_error + line list" where
  "print_summary dns_servers n_domains total_duration st =
     bindE (performance_metrics n_domains total_duration st) (\<lambda>perf.
       Inr (summary_head dns_servers n_domains total_duration st @ error_breakdown st @ perf))"

fun is_qps_line :: "line \<Rightarrow> bool" where
  "is_qps_line (OverallAverageQPS q) = True"
| "is_qps_line l = False"

fun is_stddev_line :: "line \<Rightarrow> bool" where
  "is_stddev_line (StandardDeviation s) = True"
| "is_stddev_line l = False"

fun is_latency_line :: "line \<Rightarrow> bool" where
  "is_latency_line (AverageQueryTime x) = True"
| "is_latency_line (MedianQueryTime x) = True"
| "is_latency_line (MinQueryTime x) = True"
| "is_latency_line (MaxQueryTime x) = True"
| "is_latency_line (StandardDeviation x) = True"
| "is_latency_line l = False"

subsection \<open>The concurrent run\<close>

text \<open>
  \<^verbatim>\<open>run_test\<close> runs on one thread of an event loop: control changes hands only at an
  \<^verbatim>\<open>await\<close>. Each coroutine \<^verbatim>\<open>limited_query(domain)\<close> is a task that keeps its
  argument and moves through four stages:
  \<^item> \<open>Pending\<close>: created, not yet past \<^verbatim>\<open>async with sem\<close> (not started, or waiting for
    the semaphore);
  \<^item> \<open>InFlight start_time\<close>: past the acquire, inside \<^verbatim>\<open>query_domain\<close>, waiting for
    \<^verbatim>\<open>resolver.resolve\<close>; \<open>start_time\<close> is the clock reading of line 155;
  \<^item> \<open>Completed r\<close>: \<^verbatim>\<open>query_domain\<close> has returned \<open>r\<close>, the semaphore is released,
    and the task is in the queue from which \<^verbatim>\<open>asyncio.as_completed\<close> yields;
  \<^item> \<open>Consumed\<close>: the result loop has awaited the task and run its body.

  \<^verbatim>\<open>asyncio.Semaphore\<close> is a counter: \<^verbatim>\<open>acquire\<close> returns only while the counter is
  positive and decrements it, \<^verbatim>\<open>release\<close> increments it. Which task goes next, when a
  lookup settles, how it settles and what the clock reads are the environment's
  choices: they are the events. Any pending task may acquire while the counter is
  positive, so every order in which the library may wake waiters is a run of the model.
\<close>

datatype task_state = Pending | InFlight real | Completed query_result | Consumed

datatype event =
    Acquire nat real
  | Settle nat real resolve_outcome
  | Consume real

datatype step_error = NotEnabled | Unfinished | Raised py_error

text \<open>
  \<open>loop_index\<close> is the next index of \<^verbatim>\<open>enumerate\<close>, \<open>acc\<close> holds the accumulators,
  \<open>printed\<close> the lines printed so far. \<open>consumed_log\<close> is a history variable: the pairs
  (task index, result) in the order in which the loop consumed them. Nothing reads it;
  it only lets a theorem speak about the past of a run.
\<close>

record engine_state =
  sem_value :: nat
  tasks :: "(string \<times> task_state) list"
  done_queue :: "nat list"
  loop_index :: nat
  acc :: run_state
  printed :: "line list"
  consumed_log :: "(nat \<times> query_result) list"

text \<open>Lines 187 to 211: the banner, the counters, the semaphore and one task per domain.\<close>

definition init_state :: "nat \<Rightarrow> string list \<Rightarrow> string list \<Rightarrow> engine_state" where
  "init_state max_concurrent dns_servers domains_to_test =
     \<lparr>sem_value = max_concurrent,
      tasks = map (\<lambda>domain. (domain, Pending)) domains_to_test,
      done_queue = [],
      loop_index = 0,
      acc = initial_run_state,
      printed = [TestingDnsServers dns_servers,
                QueryingDomains (length domains_to_test) QUERY_TYPE,
                ConcurrentRequests max_concurrent],
      consumed_log = []\<rparr>"

text \<open>Lines 227 to 233: the progress line, computed from the updated counters.\<close>

definition progress_line :: "nat \<Rightarrow> real \<Rightarrow> real \<Rightarrow> run_state \<Rightarrow> py_error + line" where
  "progress_line n_domains start_processing_time current_time st =
     (let elapsed_time = current_time - start_processing_time in
      bindE (if elapsed_time > 0 then py_div (real (total_processed st)) elapsed_time
             else Inr 0) (\<lambda>current_qps.
      bindE (py_div (real (total_processed st)) (real n_domains)) (\<lambda>ratio.
      Inr (Progress (ratio * 100) (total_processed st) n_domains current_qps
             (successful_lookups st) (failed_lookups st)))))"

text \<open>\<^verbatim>\<open>async with sem\<close>, entry: task \<open>i\<close> passes the acquire and reads the clock.\<close>

definition acquire :: "nat \<Rightarrow> real \<Rightarrow> engine_state \<Rightarrow> step_error + engine_state" where
  "acquire i start_time s =
     (if i < length (tasks s) \<and> snd (tasks s ! i) = Pending \<and> sem_value s > 0
      then Inr (s\<lparr>sem_value := sem_value s - 1,
                  tasks := (tasks s)[i := (fst (tasks s ! i), InFlight start_time)]\<rparr>)
      else Inl NotEnabled)"

text \<open>
  The lookup of task \<open>i\<close> settles: \<^verbatim>\<open>query_domain\<close> returns, \<^verbatim>\<open>async with\<close> releases
  the semaphore, and the finished task joins the queue of \<^verbatim>\<open>as_completed\<close>.
\<close>

definition settle ::
  "nat \<Rightarrow> real \<Rightarrow> resolve_outcome \<Rightarrow> engine_state \<Rightarrow> step_error + engine_state" where
  "settle i end_time outcome s =
     (if i < length (tasks s) then
        (case snd (tasks s ! i) of
           InFlight start_time \<Rightarrow>
             Inr (s\<lparr>sem_value := sem_value s + 1,
                    tasks := (tasks s)[i :=
                      (fst (tasks s ! i),
                       Completed (query_domain start_time end_time outcome (fst (tasks s ! i))))],
                    done_queue := done_queue s @ [i]\<rparr>)
         | _ \<Rightarrow> Inl NotEnabled)
      else Inl NotEnabled)"

text \<open>
  One pass of the \<^verbatim>\<open>for\<close> loop of lines 214 to 233: \<^verbatim>\<open>as_completed\<close> yields the
  task that finished first among those not yet consumed.
\<close>

definition consume ::
  "nat \<Rightarrow> real \<Rightarrow> real \<Rightarrow> engine_state \<Rightarrow> step_error + engine_state" where
  "consume n_domains start_processing_time current_time s =
     (case done_queue s of
        [] \<Rightarrow> Inl NotEnabled
      | i # rest \<Rightarrow>
          (if i < length (tasks s) then
             (case snd (tasks s ! i) of
                Completed r \<Rightarrow>
                  (let st = record_result (loop_index s) r (acc s) in
                   case progress_line n_domains start_processing_time current_time st of
                     Inl e \<Rightarrow> Inl (Raised e)
                   | Inr pl \<Rightarrow>
                       Inr (s\<lparr>tasks := (tasks s)[i := (fst (tasks s ! i), Consumed)],
                              done_queue := rest,
                              loop_index := loop_index s + 1,
                              acc := st,
                              printed := printed s @ [pl],
                              consumed_log := consumed_log s @ [(i, r)]\<rparr>))
              | _ \<Rightarrow> Inl NotEnabled)
           else Inl NotEnabled))"

fun step :: "nat \<Rightarrow> real \<Rightarrow> event \<Rightarrow> engine_state \<Rightarrow> step_error + engine_state" where
  "step n t0 (Acquire i start_time) s = acquire i start_time s"
| "step n t0 (Settle i end_time outcome) s = settle i end_time outcome s"
| "step n t0 (Consume current_time) s = consume n t0 current_time s"

fun run :: "nat \<Rightarrow> real \<Rightarrow> event list \<Rightarrow> engine_state \<Rightarrow> step_error + engine_state" where
  "run n t0 [] s = Inr s"
| "run n t0 (e # es) s = bindE (step n t0 e s) (run n t0 es)"

text \<open>\<^verbatim>\<open>as_completed\<close> yields once per task: the loop is over after that many passes.\<close>

definition finished :: "engine_state \<Rightarrow> bool" where
  "finished s = (loop_index s = length (tasks s))"

text \<open>
  Lines 181 to 184: the resolver is built and configured before anything is printed.
  Assigning \<^verbatim>\<open>resolver.nameservers\<close> makes the library check each entry and raise
  \<^verbatim>\<open>ValueError\<close> for one it does not accept as an address. The check belongs to the
  library, so it is the parameter \<open>is_address\<close>. Assigning the two time limits cannot
  fail.
\<close>

definition configure_resolver :: "(string \<Rightarrow> bool) \<Rightarrow> string list \<Rightarrow> py_error + unit" where
  "configure_resolver is_address dns_servers =
     (if list_all is_address dns_servers then Inr () else Inl ValueError)"

text \<open>
  The whole of \<^verbatim>\<open>run_test\<close> under a schedule \<open>evs\<close>: the set-up of the resolver,
  then the run, then the summary. The result is everything printed, or the reason why
  there is no such output. The source's ceiling is \<open>CONCURRENT_REQUESTS\<close>;
  \<open>run_test_with\<close> takes it as an argument.
\<close>

definition run_test_with ::
  "(string \<Rightarrow> bool) \<Rightarrow> nat \<Rightarrow> string list \<Rightarrow> string list \<Rightarrow> real \<Rightarrow> event list \<Rightarrow> real
     \<Rightarrow> step_error + line list" where
  "run_test_with is_address max_concurrent dns_servers domains_to_test
       start_processing_time evs end_processing_time =
     (case configure_resolver is_address dns_servers of
        Inl e \<Rightarrow> Inl (Raised e)
      | Inr resolver \<Rightarrow>
          bindE (run (length domains_to_test) start_processing_time evs
                   (init_state max_concurrent dns_servers domains_to_test)) (\<lambda>s.
            if finished s then
              (let total_duration = end_processing_time - start_processing_time in
               case print_summary dns_servers (length domains_to_test) total_duration (acc s) of
                 Inl e \<Rightarrow> Inl (Raised e)
               | Inr ls \<Rightarrow> Inr (printed s @ ls))
            else Inl Unfinished))"

definition run_test ::
  "(string \<Rightarrow> bool) \<Rightarrow> string list \<Rightarrow> string list \<Rightarrow> real \<Rightarrow> event list \<Rightarrow> real
     \<Rightarrow> step_error + line list" where
  "run_test is_address = run_test_with is_address CONCURRENT_REQUESTS"

subsection \<open>Observations on a run\<close>

fun is_in_flight :: "task_state \<Rightarrow> bool" where
  "is_in_flight (InFlight t) = True"
| "is_in_flight x = False"

definition in_flight :: "engine_state \<Rightarrow> nat" where
  "in_flight s = length (filter (\<lambda>t. is_in_flight (snd t)) (tasks s))"

fun is_acquire_of :: "nat \<Rightarrow> event \<Rightarrow> bool" where
  "is_acquire_of i (Acquire j t) = (j = i)"
| "is_acquire_of i e = False"

fun is_consume :: "event \<Rightarrow> bool" where
  "is_consume (Consume t) = True"
| "is_consume e = False"

text \<open>The keys of the failed results of a log, and the distinct elements of a list in
  the order of their first occurrence.\<close>

definition failure_keys :: "(nat \<times> query_result) list \<Rightarrow> string list" where
  "failure_keys lg =
     map (\<lambda>p. the (error_key (snd p))) (filter (\<lambda>p. truthy (error_key (snd p))) lg)"

fun first_seen :: "'a list \<Rightarrow> 'a list" where
  "first_seen [] = []"
| "first_seen (x # xs) = x # filter (\<lambda>y. y \<noteq> x) (first_seen xs)"

fun is_error_entry :: "line \<Rightarrow> bool" where
  "is_error_entry (ErrorEntry k c) = True"
| "is_error_entry l = False"

fun is_completed :: "task_state \<Rightarrow> bool" where
  "is_completed (Completed r) = True"
| "is_completed x = False"

text \<open>
  The number of occurrences of each key of a sequence, the keys in the order of their
  first occurrence: what a dictionary filled by counting holds.
\<close>

definition tally :: "string list \<Rightarrow> error_dict" where
  "tally ks = map (\<lambda>k. (k, count_list ks k)) (first_seen ks)"

subsection \<open>Invariants of a run\<close>

text \<open>
  The stages still ahead of all tasks together: three for a pending task, none for a
  consumed one. Every event lowers it by one.
\<close>

fun rank :: "task_state \<Rightarrow> nat" where
  "rank Pending = 3"
| "rank (InFlight t) = 2"
| "rank (Completed r) = 1"
| "rank Consumed = 0"

definition remaining :: "engine_state \<Rightarrow> nat" where
  "remaining s = sum_list (map (\<lambda>t. rank (snd t)) (tasks s))"

definition consumed_count :: "engine_state \<Rightarrow> nat" where
  "consumed_count s = length (filter (\<lambda>t. snd t = Consumed) (tasks s))"

definition indices_where ::
  "(task_state \<Rightarrow> bool) \<Rightarrow> (string \<times> task_state) list \<Rightarrow> nat set" where
  "indices_where Q ts = {i. i < length ts \<and> Q (snd (ts ! i))}"

text \<open>The semaphore's counter and the tasks past the acquire add up to the ceiling.\<close>

definition inv_sem :: "nat \<Rightarrow> engine_state \<Rightarrow> bool" where
  "inv_sem N s = (sem_value s + in_flight s = N)"

text \<open>Task \<open>i\<close> queries the \<open>i\<close>-th domain of the input.\<close>

definition inv_tasks :: "string list \<Rightarrow> engine_state \<Rightarrow> bool" where
  "inv_tasks ds s = (map fst (tasks s) = ds)"

text \<open>The queue of \<^verbatim>\<open>as_completed\<close> holds the completed tasks, each once.\<close>

definition inv_queue :: "engine_state \<Rightarrow> bool" where
  "inv_queue s =
     (distinct (done_queue s) \<and> set (done_queue s) = indices_where is_completed (tasks s))"

text \<open>The log holds the consumed tasks, each once, one per pass of the loop.\<close>

definition inv_log :: "engine_state \<Rightarrow> bool" where
  "inv_log s =
     (distinct (map fst (consumed_log s)) \<and>
      set (map fst (consumed_log s)) = indices_where (\<lambda>x. x = Consumed) (tasks s) \<and>
      length (consumed_log s) = loop_index s)"

text \<open>Every result, waiting or logged, names the domain of its task.\<close>

definition inv_dom :: "string list \<Rightarrow> engine_state \<Rightarrow> bool" where
  "inv_dom ds s =
     ((\<forall>p \<in> set (consumed_log s). fst p < length ds \<and> fst (snd p) = ds ! fst p) \<and>
      (\<forall>i < length (tasks s). \<forall>r. snd (tasks s ! i) = Completed r \<longrightarrow> fst r = ds ! i))"

text \<open>The accumulators agree with the number of passes and with the log.\<close>

definition inv_acc :: "engine_state \<Rightarrow> bool" where
  "inv_acc s =
     (total_processed (acc s) = loop_index s \<and>
      successful_lookups (acc s) + failed_lookups (acc s) = loop_index s \<and>
      length (timings (acc s)) = successful_lookups (acc s) \<and>
      failed_lookups (acc s) = length (failure_keys (consumed_log s)) \<and>
      error_counts (acc s) = tally (failure_keys (consumed_log s)))"

definition inv :: "nat \<Rightarrow> string list \<Rightarrow> engine_state \<Rightarrow> bool" where
  "inv N ds s =
     (inv_sem N s \<and> inv_tasks ds s \<and> inv_queue s \<and> loop_index s = consumed_count s \<and>
      inv_log s \<and> inv_dom ds s \<and> inv_acc s)"

subsection \<open>Example inputs\<close>

text \<open>Final accumulators: three successes of 10, 20 and 30 milliseconds; one of 10.\<close>

definition three_successes :: run_state where
  "three_successes =
     \<lparr>successful_lookups = 3, failed_lookups = 0, error_counts = [],
      timings = [1/100, 2/100, 3/100], total_processed = 3\<rparr>"


text \<open>Two exceptions of one class that differ in their message.\<close>

definition no_nameservers_a :: dns_exception where
  "no_nameservers_a =
     \<lparr>exc_type = OtherException ''NoNameservers'',
      exc_message = ''All nameservers failed to answer the query google.com.''\<rparr>"

definition no_nameservers_b :: dns_exception where
  "no_nameservers_b =
     \<lparr>exc_type = OtherException ''NoNameservers'',
      exc_message = ''All nameservers failed to answer the query github.com.''\<rparr>"

definition timed_out :: dns_exception where
  "timed_out = \<lparr>exc_type = Timeout, exc_message = ''The DNS operation timed out.''\<rparr>"

definition no_such_name :: dns_exception where
  "no_such_name = \<lparr>exc_type = NXDOMAIN, exc_message = ''The DNS query name does not exist.''\<rparr>"

text \<open>
  Two complete runs under a ceiling of two, with the state each ends in: four lookups
  that all fail, and three lookups of which two succeed. \<open>two_in_flight\<close> is the state
  after the first two events of the second run.
\<close>

definition demo_servers :: "string list" where
  "demo_servers = [''192.168.0.2'']"

definition failing_domains :: "string list" where
  "failing_domains = [''google.com'', ''youtube.com'', ''facebook.com'', ''twitter.com'']"

definition failing_schedule :: "event list" where
  "failing_schedule =
     [Acquire 0 (1/10), Acquire 1 (1/10),
      Settle 1 (2/10) (Raises \<lparr>exc_type = NoAnswer, exc_message = ''no A record''\<rparr>),
      Acquire 2 (2/10), Consume (3/10),
      Settle 0 (21/10) (Raises \<lparr>exc_type = Timeout, exc_message = ''timed out''\<rparr>),
      Acquire 3 (21/10), Consume (22/10),
      Settle 3 (23/10) (Raises \<lparr>exc_type = NXDOMAIN, exc_message = ''no such name''\<rparr>),
      Settle 2 (23/10) (Raises \<lparr>exc_type = Timeout, exc_message = ''timed out''\<rparr>),
      Consume (24/10), Consume (25/10)]"

definition mixed_domains :: "string list" where
  "mixed_domains = [''google.com'', ''youtube.com'', ''facebook.com'']"

definition mixed_schedule :: "event list" where
  "mixed_schedule =
     [Acquire 0 (1/10), Acquire 1 (1/10),
      Settle 1 (3/10) Answer, Acquire 2 (3/10), Consume (4/10),
      Settle 2 (5/10) (Raises \<lparr>exc_type = OtherException ''NoNameservers'', exc_message = ''SERVFAIL''\<rparr>),
      Settle 0 (6/10) Answer, Consume (7/10), Consume (8/10)]"

definition failing_final :: engine_state where
  "failing_final =
     \<lparr>sem_value = 2,
      tasks = [(''google.com'', Consumed), (''youtube.com'', Consumed),
               (''facebook.com'', Consumed), (''twitter.com'', Consumed)],
      done_queue = [], loop_index = 4,
      acc = \<lparr>successful_lookups = 0, failed_lookups = 4,
             error_counts = [(''NoAnswer'', 1), (''Timeout'', 2), (''NXDOMAIN'', 1)],
             timings = [], total_processed = 4\<rparr>,
      printed = [TestingDnsServers [''192.168.0.2''], QueryingDomains 4 ''A'',
                 ConcurrentRequests 2, Progress 25 1 4 (10 / 3) 0 1,
                 Progress 50 2 4 (10 / 11) 0 2, Progress 75 3 4 (5 / 4) 0 3,
                 Progress 100 4 4 (8 / 5) 0 4],
      consumed_log = [(1, ''youtube.com'', 1 / 10, Some ''NoAnswer''),
                      (0, ''google.com'', 2, Some ''Timeout''),
                      (3, ''twitter.com'', 1 / 5, Some ''NXDOMAIN''),
                      (2, ''facebook.com'', 2, Some ''Timeout'')]\<rparr>"

definition mixed_final :: engine_state where
  "mixed_final =
     \<lparr>sem_value = 2,
      tasks = [(''google.com'', Consumed), (''youtube.com'', Consumed),
               (''facebook.com'', Consumed)],
      done_queue = [], loop_index = 3,
      acc = \<lparr>successful_lookups = 2, failed_lookups = 1,
             error_counts = [(''NoNameservers'', 1)],
             timings = [1 / 5, 1 / 2], total_processed = 3\<rparr>,
      printed = [TestingDnsServers [''192.168.0.2''], QueryingDomains 3 ''A'',
                 ConcurrentRequests 2, Progress (100 / 3) 1 3 (5 / 2) 1 0,
                 Progress (200 / 3) 2 3 (20 / 7) 1 1, Progress 100 3 3 (15 / 4) 2 1],
      consumed_log = [(1, ''youtube.com'', 1 / 5, None),
                      (2, ''facebook.com'', 1 / 5, Some ''NoNameservers''),
                      (0, ''google.com'', 1 / 2, None)]\<rparr>"

definition two_in_flight :: engine_state where
  "two_in_flight =
     \<lparr>sem_value = 0,
      tasks = [(''google.com'', InFlight (1 / 10)), (''youtube.com'', InFlight (1 / 10)),
               (''facebook.com'', Pending)],
      done_queue = [], loop_index = 0,
      acc = \<lparr>successful_lookups = 0, failed_lookups = 0, error_counts = [],
             timings = [], total_processed = 0\<rparr>,
      printed = [TestingDnsServers [''192.168.0.2''], QueryingDomains 3 ''A'',
                 ConcurrentRequests 2],
      consumed_log = []\<rparr>"

section \<open>Lemmas\<close>

subsection \<open>The error monad and the statistics\<close>

lemma bindE_simps:
  "bindE (Inl e) f = Inl e" "bindE (Inr x) f = f x"
  by (simp_all add: bindE_def)

lemma mean_total: "xs \<noteq> [] \<Longrightarrow> mean xs = Inr (sum_list xs / real (length xs))"
  by (simp add: mean_def)

lemma sort_key_Nil_iff: "sort_key f xs = [] \<longleftrightarrow> xs = []"
  by (metis length_sort length_0_conv)

lemma median_total:
  "xs \<noteq> [] \<Longrightarrow> median xs =
     Inr (if length xs mod 2 = 1 then sort xs ! (length xs div 2)
          else (sort xs ! (length xs div 2 - 1) + sort xs ! (length xs div 2)) / 2)"
  by (simp add: median_def Let_def sort_key_Nil_iff)

lemma py_min_total: "xs \<noteq> [] \<Longrightarrow> \<exists>m. py_min xs = Inr m"
  by (cases xs) simp_all

lemma py_max_total: "xs \<noteq> [] \<Longrightarrow> \<exists>m. py_max xs = Inr m"
  by (cases xs) simp_all

lemma stdev_total:
  "1 < length xs \<Longrightarrow> stdev xs = Inr (sqrt (sum_sq_dev xs / real (length xs - 1)))"
  by (simp add: stdev_def variance_def bindE_simps)

lemma performance_metrics_empty:
  "timings st = [] \<Longrightarrow> performance_metrics n dur st = Inr [NoSuccessfulLookups]"
  by (simp add: performance_metrics_def)

lemma performance_metrics_nonempty:
  assumes "timings st \<noteq> []"
  shows "\<exists>med lo hi. performance_metrics n dur st =
     Inr ([PerformanceMetricsHeader,
           AverageQueryTime (sum_list (timings st) / real (length (timings st)) * 1000),
           MedianQueryTime (med * 1000), MinQueryTime (lo * 1000), MaxQueryTime (hi * 1000)]
          @ (if 1 < length (timings st)
             then [StandardDeviation
                     (sqrt (sum_sq_dev (timings st) / real (length (timings st) - 1)) * 1000)]
             else [])
          @ (if dur > 0 then [OverallAverageQPS (real n / dur)] else []))"
proof -
  obtain med where med: "median (timings st) = Inr med"
    using median_total [OF assms] by simp
  obtain lo where lo: "py_min (timings st) = Inr lo"
    using py_min_total [OF assms] by blast
  obtain hi where hi: "py_max (timings st) = Inr hi"
    using py_max_total [OF assms] by blast
  show ?thesis
    using assms
    by (simp add: performance_metrics_def mean_total med lo hi bindE_simps stdev_total py_div_def)
qed

lemma filter_head_breakdown:
  "filter is_qps_line (summary_head srv n dur st @ error_breakdown st) = []"
  "filter is_stddev_line (summary_head srv n dur st @ error_breakdown st) = []"
  "filter is_latency_line (summary_head srv n dur st @ error_breakdown st) = []"
  by (auto simp: summary_head_def error_breakdown_def filter_empty_conv split: prod.splits)

lemma print_summary_shape:
  "\<exists>perf. print_summary srv n dur st =
            Inr (summary_head srv n dur st @ error_breakdown st @ perf) \<and>
          performance_metrics n dur st = Inr perf"
proof (cases "timings st = []")
  case True
  then show ?thesis
    by (simp add: print_summary_def performance_metrics_empty bindE_simps)
next
  case False
  from performance_metrics_nonempty [OF False, of n dur] obtain perf
    where "performance_metrics n dur st = Inr perf" by blast
  then show ?thesis
    by (simp add: print_summary_def bindE_simps)
qed

lemma sqrt_example: "sqrt (1 / 10000) = 1 / 100"
  by (rule real_sqrt_unique) (simp_all add: power2_eq_square)

subsection \<open>Runs, step by step\<close>

lemma bindE_Inr_iff: "bindE m f = Inr y \<longleftrightarrow> (\<exists>x. m = Inr x \<and> f x = Inr y)"
  by (cases m) (simp_all add: bindE_def)

lemma run_snoc: "run n t0 (es @ [e]) s = bindE (run n t0 es s) (step n t0 e)"
  by (induction es arbitrary: s) (simp_all add: bindE_def split: sum.splits)

lemma run_induct [consumes 1, case_names init step]:
  assumes "run n t0 evs s0 = Inr s"
    and "P [] s0"
    and "\<And>es s e s'. run n t0 es s0 = Inr s \<Longrightarrow> P es s \<Longrightarrow> step n t0 e s = Inr s'
           \<Longrightarrow> P (es @ [e]) s'"
  shows "P evs s"
  using assms(1)
proof (induction evs arbitrary: s rule: rev_induct)
  case Nil
  then show ?case using assms(2) by simp
next
  case (snoc e es)
  from snoc.prems obtain s1 where s1: "run n t0 es s0 = Inr s1" and st: "step n t0 e s1 = Inr s"
    by (auto simp: run_snoc bindE_Inr_iff)
  from snoc.IH [OF s1] assms(3) [OF s1 _ st] show ?case by blast
qed

lemma acquireE:
  assumes "acquire i t s = Inr s'"
  obtains "i < length (tasks s)" "snd (tasks s ! i) = Pending" "sem_value s > 0"
    "s' = s\<lparr>sem_value := sem_value s - 1,
            tasks := (tasks s)[i := (fst (tasks s ! i), InFlight t)]\<rparr>"
  using assms by (auto simp: acquire_def split: if_splits)

lemma settleE:
  assumes "settle i t outcome s = Inr s'"
  obtains t1 where "i < length (tasks s)" "snd (tasks s ! i) = InFlight t1"
    "s' = s\<lparr>sem_value := sem_value s + 1,
            tasks := (tasks s)[i := (fst (tasks s ! i),
                        Completed (query_domain t1 t outcome (fst (tasks s ! i))))],
            done_queue := done_queue s @ [i]\<rparr>"
  using assms by (auto simp: settle_def split: if_splits task_state.splits)

lemma consumeE:
  assumes "consume n t0 t s = Inr s'"
  obtains i rest r pl where "done_queue s = i # rest" "i < length (tasks s)"
    "snd (tasks s ! i) = Completed r"
    "progress_line n t0 t (record_result (loop_index s) r (acc s)) = Inr pl"
    "s' = s\<lparr>tasks := (tasks s)[i := (fst (tasks s ! i), Consumed)],
            done_queue := rest,
            loop_index := loop_index s + 1,
            acc := record_result (loop_index s) r (acc s),
            printed := printed s @ [pl],
            consumed_log := consumed_log s @ [(i, r)]\<rparr>"
  using assms
  by (auto simp: consume_def Let_def split: if_splits task_state.splits list.splits sum.splits)

lemma stepE:
  assumes "step n t0 e s = Inr s'"
  obtains (Acquire) i t where "e = Acquire i t" "acquire i t s = Inr s'"
  | (Settle) i t outcome where "e = Settle i t outcome" "settle i t outcome s = Inr s'"
  | (Consume) t where "e = Consume t" "consume n t0 t s = Inr s'"
  using assms by (cases e) auto

lemma count_update:
  "i < length xs \<Longrightarrow>
     length (filter P (xs[i := y])) + (if P (xs ! i) then 1 else 0) =
     length (filter P xs) + (if P y then 1 else 0)"
proof (induction xs arbitrary: i)
  case Nil
  then show ?case by simp
next
  case (Cons x xs)
  show ?case
  proof (cases i)
    case 0
    then show ?thesis by simp
  next
    case (Suc j)
    with Cons.prems have "j < length xs" by simp
    from Cons.IH [OF this] Suc show ?thesis by simp
  qed
qed

lemma weight_update:
  "i < length xs \<Longrightarrow>
     sum_list (map f (xs[i := y])) + f (xs ! i) = sum_list (map f xs) + (f y :: nat)"
proof (induction xs arbitrary: i)
  case Nil
  then show ?case by simp
next
  case (Cons x xs)
  show ?case
  proof (cases i)
    case 0
    then show ?thesis by simp
  next
    case (Suc j)
    with Cons.prems have "j < length xs" by simp
    from Cons.IH [OF this] Suc show ?thesis by simp
  qed
qed

lemma status_change:
  assumes "i < length ts" "snd (ts ! i) = old"
  shows "length (filter (\<lambda>t. P (snd t)) (ts[i := (fst (ts ! i), new)])) + (if P old then 1 else 0) =
         length (filter (\<lambda>t. P (snd t)) ts) + (if P new then 1 else 0)"
    and "sum_list (map (\<lambda>t. rank (snd t)) (ts[i := (fst (ts ! i), new)])) + rank old =
         sum_list (map (\<lambda>t. rank (snd t)) ts) + rank new"
    and "map fst (ts[i := (fst (ts ! i), new)]) = map fst ts"
proof -
  show "length (filter (\<lambda>t. P (snd t)) (ts[i := (fst (ts ! i), new)])) + (if P old then 1 else 0) =
         length (filter (\<lambda>t. P (snd t)) ts) + (if P new then 1 else 0)"
    using count_update [OF assms(1), of "\<lambda>t. P (snd t)" "(fst (ts ! i), new)"] assms(2) by simp
  show "sum_list (map (\<lambda>t. rank (snd t)) (ts[i := (fst (ts ! i), new)])) + rank old =
         sum_list (map (\<lambda>t. rank (snd t)) ts) + rank new"
    using weight_update [OF assms(1), of "\<lambda>t. rank (snd t)" "(fst (ts ! i), new)"] assms(2) by simp
  show "map fst (ts[i := (fst (ts ! i), new)]) = map fst ts"
    using assms(1) by (simp add: map_update list_update_same_conv)
qed

lemma acquire_effect:
  assumes "acquire i t s = Inr s'"
  shows "in_flight s' = in_flight s + 1" "sem_value s' + 1 = sem_value s"
    "consumed_count s' = consumed_count s" "remaining s' + 1 = remaining s"
    "map fst (tasks s') = map fst (tasks s)"
    "done_queue s' = done_queue s" "loop_index s' = loop_index s" "acc s' = acc s"
    "consumed_log s' = consumed_log s"
  using assms
proof -
  from assms obtain a: "i < length (tasks s)" "snd (tasks s ! i) = Pending" "0 < sem_value s"
    and s': "s' = s\<lparr>sem_value := sem_value s - 1,
            tasks := (tasks s)[i := (fst (tasks s ! i), InFlight t)]\<rparr>"
    by (rule acquireE)
  show "in_flight s' = in_flight s + 1"
    using status_change(1) [OF a(1,2), of is_in_flight "InFlight t"]
    by (simp add: in_flight_def s')
  show "sem_value s' + 1 = sem_value s" using a(3) by (simp add: s')
  show "consumed_count s' = consumed_count s"
    using status_change(1) [OF a(1,2), of "\<lambda>x. x = Consumed" "InFlight t"]
    by (simp add: consumed_count_def s')
  show "remaining s' + 1 = remaining s"
    using status_change(2) [OF a(1,2), of "InFlight t"] by (simp add: remaining_def s')
  show "map fst (tasks s') = map fst (tasks s)"
    using status_change(3) [OF a(1,2)] by (simp add: s')
  show "done_queue s' = done_queue s" "loop_index s' = loop_index s" "acc s' = acc s"
    "consumed_log s' = consumed_log s"
    by (simp_all add: s')
qed

lemma settle_effect:
  assumes "settle i t outcome s = Inr s'"
  shows "in_flight s' + 1 = in_flight s" "sem_value s' = sem_value s + 1"
    "consumed_count s' = consumed_count s" "remaining s' + 1 = remaining s"
    "map fst (tasks s') = map fst (tasks s)"
    "done_queue s' = done_queue s @ [i]" "loop_index s' = loop_index s" "acc s' = acc s"
    "consumed_log s' = consumed_log s"
proof -
  from assms obtain t1 where a: "i < length (tasks s)" "snd (tasks s ! i) = InFlight t1"
    and s': "s' = s\<lparr>sem_value := sem_value s + 1,
            tasks := (tasks s)[i := (fst (tasks s ! i),
                        Completed (query_domain t1 t outcome (fst (tasks s ! i))))],
            done_queue := done_queue s @ [i]\<rparr>"
    by (rule settleE)
  let ?new = "Completed (query_domain t1 t outcome (fst (tasks s ! i)))"
  show "in_flight s' + 1 = in_flight s"
    using status_change(1) [OF a(1,2), of is_in_flight ?new]
    by (simp add: in_flight_def s')
  show "sem_value s' = sem_value s + 1" by (simp add: s')
  show "consumed_count s' = consumed_count s"
    using status_change(1) [OF a(1,2), of "\<lambda>x. x = Consumed" ?new]
    by (simp add: consumed_count_def s')
  show "remaining s' + 1 = remaining s"
    using status_change(2) [OF a(1,2), of ?new] by (simp add: remaining_def s')
  show "map fst (tasks s') = map fst (tasks s)"
    using status_change(3) [OF a(1,2)] by (simp add: s')
  show "done_queue s' = done_queue s @ [i]" "loop_index s' = loop_index s" "acc s' = acc s"
    "consumed_log s' = consumed_log s"
    by (simp_all add: s')
qed

lemma consume_effect:
  assumes "consume n t0 t s = Inr s'"
  shows "in_flight s' = in_flight s" "sem_value s' = sem_value s"
    "consumed_count s' = consumed_count s + 1" "remaining s' + 1 = remaining s"
    "map fst (tasks s') = map fst (tasks s)"
    "loop_index s' = loop_index s + 1"
proof -
  from assms obtain i rest r pl where a: "i < length (tasks s)" "snd (tasks s ! i) = Completed r"
    and s': "s' = s\<lparr>tasks := (tasks s)[i := (fst (tasks s ! i), Consumed)],
            done_queue := rest,
            loop_index := loop_index s + 1,
            acc := record_result (loop_index s) r (acc s),
            printed := printed s @ [pl],
            consumed_log := consumed_log s @ [(i, r)]\<rparr>"
    by (rule consumeE)
  show "in_flight s' = in_flight s"
    using status_change(1) [OF a(1,2), of is_in_flight Consumed]
    by (simp add: in_flight_def s')
  show "sem_value s' = sem_value s" by (simp add: s')
  show "consumed_count s' = consumed_count s + 1"
    using status_change(1) [OF a(1,2), of "\<lambda>x. x = Consumed" Consumed]
    by (simp add: consumed_count_def s')
  show "remaining s' + 1 = remaining s"
    using status_change(2) [OF a(1,2), of Consumed] by (simp add: remaining_def s')
  show "map fst (tasks s') = map fst (tasks s)"
    using status_change(3) [OF a(1,2)] by (simp add: s')
  show "loop_index s' = loop_index s + 1" by (simp add: s')
qed

lemma step_counts:
  assumes "step n t0 e s = Inr s'"
  shows "sem_value s' + in_flight s' = sem_value s + in_flight s"
    and "remaining s' + 1 = remaining s"
    and "map fst (tasks s') = map fst (tasks s)"
    and "loop_index s' + consumed_count s = loop_index s + consumed_count s'"
    and "loop_index s' = loop_index s + (if is_consume e then 1 else 0)"
proof -
  show "sem_value s' + in_flight s' = sem_value s + in_flight s"
  proof (cases e)
    case (Acquire i t)
    with assms acquire_effect(1,2) [of i t s s'] show ?thesis by simp
  next
    case (Settle i t outcome)
    with assms settle_effect(1,2) [of i t outcome s s'] show ?thesis by simp
  next
    case (Consume t)
    with assms consume_effect(1,2) [of n t0 t s s'] show ?thesis by simp
  qed
  show "remaining s' + 1 = remaining s"
    using assms acquire_effect(4) settle_effect(4) consume_effect(4) by (cases e) simp_all
  show "map fst (tasks s') = map fst (tasks s)"
    using assms acquire_effect(5) settle_effect(5) consume_effect(5) by (cases e) simp_all
  show "loop_index s' + consumed_count s = loop_index s + consumed_count s'"
  proof (cases e)
    case (Acquire i t)
    with assms acquire_effect(3,7) [of i t s s'] show ?thesis by simp
  next
    case (Settle i t outcome)
    with assms settle_effect(3,7) [of i t outcome s s'] show ?thesis by simp
  next
    case (Consume t)
    with assms consume_effect(3,6) [of n t0 t s s'] show ?thesis by simp
  qed
  show "loop_index s' = loop_index s + (if is_consume e then 1 else 0)"
    using assms acquire_effect(7) settle_effect(7) consume_effect(6) by (cases e) simp_all
qed

lemma fst_query_domain: "fst (query_domain t1 t2 outcome d) = d"
  by (simp add: query_domain_def split: resolve_outcome.splits exc_class.splits)

lemma query_domain_fstD: "query_domain t1 t2 outcome d = (a, b, c) \<Longrightarrow> a = d"
  using fst_query_domain [of t1 t2 outcome d] by simp

lemma indices_where_update:
  "i < length ts \<Longrightarrow>
     indices_where Q (ts[i := (d, x)]) =
       (if Q x then insert i (indices_where Q ts) else indices_where Q ts - {i})"
  by (auto simp: indices_where_def nth_list_update)

lemma indices_where_mem: "i \<in> indices_where Q ts \<longleftrightarrow> i < length ts \<and> Q (snd (ts ! i))"
  by (simp add: indices_where_def)

lemma inv_queue_step:
  assumes "inv_queue s" "step n t0 e s = Inr s'"
  shows "inv_queue s'"
  using assms(2)
proof (cases rule: stepE)
  case (Acquire i t)
  from Acquire(2) obtain a: "i < length (tasks s)" "snd (tasks s ! i) = Pending"
    and s': "s' = s\<lparr>sem_value := sem_value s - 1,
            tasks := (tasks s)[i := (fst (tasks s ! i), InFlight t)]\<rparr>"
    by (rule acquireE)
  have "i \<notin> indices_where is_completed (tasks s)"
    using a(2) by (simp add: indices_where_mem)
  then have "indices_where is_completed (tasks s') = indices_where is_completed (tasks s)"
    using a(1) by (simp add: s' indices_where_update)
  moreover have "done_queue s' = done_queue s" by (simp add: s')
  ultimately show ?thesis using assms(1) by (simp add: inv_queue_def)
next
  case (Settle i t outcome)
  from Settle(2) obtain t1 where a: "i < length (tasks s)" "snd (tasks s ! i) = InFlight t1"
    and s': "s' = s\<lparr>sem_value := sem_value s + 1,
            tasks := (tasks s)[i := (fst (tasks s ! i),
                        Completed (query_domain t1 t outcome (fst (tasks s ! i))))],
            done_queue := done_queue s @ [i]\<rparr>"
    by (rule settleE)
  have "i \<notin> indices_where is_completed (tasks s)"
    using a(2) by (simp add: indices_where_mem)
  moreover have "indices_where is_completed (tasks s') = insert i (indices_where is_completed (tasks s))"
    using a(1) by (simp add: s' indices_where_update)
  moreover have "done_queue s' = done_queue s @ [i]" by (simp add: s')
  ultimately show ?thesis using assms(1) by (simp add: inv_queue_def)
next
  case (Consume t)
  from Consume(2) obtain i rest r pl where a: "done_queue s = i # rest" "i < length (tasks s)"
    and s': "s' = s\<lparr>tasks := (tasks s)[i := (fst (tasks s ! i), Consumed)],
            done_queue := rest,
            loop_index := loop_index s + 1,
            acc := record_result (loop_index s) r (acc s),
            printed := printed s @ [pl],
            consumed_log := consumed_log s @ [(i, r)]\<rparr>"
    by (rule consumeE)
  have "indices_where is_completed (tasks s') = indices_where is_completed (tasks s) - {i}"
    using a(2) by (simp add: s' indices_where_update)
  moreover have "done_queue s' = rest" by (simp add: s')
  moreover from assms(1) a(1) have "distinct rest" "set rest = indices_where is_completed (tasks s) - {i}"
    by (auto simp: inv_queue_def)
  ultimately show ?thesis by (simp add: inv_queue_def)
qed

lemma inv_log_step:
  assumes "inv_log s" "step n t0 e s = Inr s'"
  shows "inv_log s'"
  using assms(2)
proof (cases rule: stepE)
  case (Acquire i t)
  from Acquire(2) obtain a: "i < length (tasks s)" "snd (tasks s ! i) = Pending"
    and s': "s' = s\<lparr>sem_value := sem_value s - 1,
            tasks := (tasks s)[i := (fst (tasks s ! i), InFlight t)]\<rparr>"
    by (rule acquireE)
  have "i \<notin> indices_where (\<lambda>x. x = Consumed) (tasks s)"
    using a(2) by (simp add: indices_where_mem)
  then have "indices_where (\<lambda>x. x = Consumed) (tasks s') = indices_where (\<lambda>x. x = Consumed) (tasks s)"
    using a(1) by (simp add: s' indices_where_update)
  moreover have "consumed_log s' = consumed_log s" "loop_index s' = loop_index s"
    by (simp_all add: s')
  ultimately show ?thesis using assms(1) by (simp add: inv_log_def)
next
  case (Settle i t outcome)
  from Settle(2) obtain t1 where a: "i < length (tasks s)" "snd (tasks s ! i) = InFlight t1"
    and s': "s' = s\<lparr>sem_value := sem_value s + 1,
            tasks := (tasks s)[i := (fst (tasks s ! i),
                        Completed (query_domain t1 t outcome (fst (tasks s ! i))))],
            done_queue := done_queue s @ [i]\<rparr>"
    by (rule settleE)
  have "i \<notin> indices_where (\<lambda>x. x = Consumed) (tasks s)"
    using a(2) by (simp add: indices_where_mem)
  then have "indices_where (\<lambda>x. x = Consumed) (tasks s') = indices_where (\<lambda>x. x = Consumed) (tasks s)"
    using a(1) by (simp add: s' indices_where_update)
  moreover have "consumed_log s' = consumed_log s" "loop_index s' = loop_index s"
    by (simp_all add: s')
  ultimately show ?thesis using assms(1) by (simp add: inv_log_def)
next
  case (Consume t)
  from Consume(2) obtain i rest r pl where a: "i < length (tasks s)" "snd (tasks s ! i) = Completed r"
    and s': "s' = s\<lparr>tasks := (tasks s)[i := (fst (tasks s ! i), Consumed)],
            done_queue := rest,
            loop_index := loop_index s + 1,
            acc := record_result (loop_index s) r (acc s),
            printed := printed s @ [pl],
            consumed_log := consumed_log s @ [(i, r)]\<rparr>"
    by (rule consumeE)
  have "i \<notin> indices_where (\<lambda>x. x = Consumed) (tasks s)"
    using a(2) by (simp add: indices_where_mem)
  moreover have "indices_where (\<lambda>x. x = Consumed) (tasks s') =
      insert i (indices_where (\<lambda>x. x = Consumed) (tasks s))"
    using a(1) by (simp add: s' indices_where_update)
  moreover have "consumed_log s' = consumed_log s @ [(i, r)]" "loop_index s' = loop_index s + 1"
    by (simp_all add: s')
  ultimately show ?thesis using assms(1) by (simp add: inv_log_def)
qed

lemma inv_tasks_step:
  assumes "inv_tasks ds s" "step n t0 e s = Inr s'"
  shows "inv_tasks ds s'"
  using assms step_counts(3) [OF assms(2)] by (simp add: inv_tasks_def)

lemma inv_tasks_nth: "inv_tasks ds s \<Longrightarrow> i < length (tasks s) \<Longrightarrow> fst (tasks s ! i) = ds ! i"
  by (metis inv_tasks_def nth_map)

lemma inv_tasks_length: "inv_tasks ds s \<Longrightarrow> length (tasks s) = length ds"
  by (metis inv_tasks_def length_map)

lemma inv_dom_step:
  assumes "inv_dom ds s" "inv_tasks ds s" "step n t0 e s = Inr s'"
  shows "inv_dom ds s'"
  using assms(3)
proof (cases rule: stepE)
  case (Acquire i t)
  from Acquire(2) obtain a: "i < length (tasks s)" "snd (tasks s ! i) = Pending"
    and s': "s' = s\<lparr>sem_value := sem_value s - 1,
            tasks := (tasks s)[i := (fst (tasks s ! i), InFlight t)]\<rparr>"
    by (rule acquireE)
  have "consumed_log s' = consumed_log s" "tasks s' = (tasks s)[i := (fst (tasks s ! i), InFlight t)]"
    by (simp_all add: s')
  with assms(1) a(1) show ?thesis
    by (auto simp: inv_dom_def nth_list_update)
next
  case (Settle i t outcome)
  from Settle(2) obtain t1 where a: "i < length (tasks s)" "snd (tasks s ! i) = InFlight t1"
    and s': "s' = s\<lparr>sem_value := sem_value s + 1,
            tasks := (tasks s)[i := (fst (tasks s ! i),
                        Completed (query_domain t1 t outcome (fst (tasks s ! i))))],
            done_queue := done_queue s @ [i]\<rparr>"
    by (rule settleE)
  have "consumed_log s' = consumed_log s"
    "tasks s' = (tasks s)[i := (fst (tasks s ! i),
                        Completed (query_domain t1 t outcome (fst (tasks s ! i))))]"
    by (simp_all add: s')
  with assms(1) a(1) inv_tasks_nth [OF assms(2) a(1)] show ?thesis
    by (auto simp: inv_dom_def nth_list_update dest: query_domain_fstD)
next
  case (Consume t)
  from Consume(2) obtain i rest r pl where a: "i < length (tasks s)" "snd (tasks s ! i) = Completed r"
    and s': "s' = s\<lparr>tasks := (tasks s)[i := (fst (tasks s ! i), Consumed)],
            done_queue := rest,
            loop_index := loop_index s + 1,
            acc := record_result (loop_index s) r (acc s),
            printed := printed s @ [pl],
            consumed_log := consumed_log s @ [(i, r)]\<rparr>"
    by (rule consumeE)
  have "consumed_log s' = consumed_log s @ [(i, r)]"
    "tasks s' = (tasks s)[i := (fst (tasks s ! i), Consumed)]"
    by (simp_all add: s')
  moreover from assms(1) a have "fst r = ds ! i" unfolding inv_dom_def by blast
  moreover from a(1) inv_tasks_length [OF assms(2)] have "i < length ds" by simp
  ultimately show ?thesis using assms(1) a(1)
    by (auto simp: inv_dom_def nth_list_update)
qed

subsection \<open>The tally of error keys\<close>

lemma set_first_seen: "set (first_seen ks) = set ks"
  by (induction ks) auto

lemma distinct_first_seen: "distinct (first_seen ks)"
  by (induction ks) (simp_all add: set_first_seen)

lemma first_seen_snoc:
  "first_seen (ks @ [k]) = (if k \<in> set ks then first_seen ks else first_seen ks @ [k])"
  by (induction ks) auto

lemma dict_get_map:
  "dict_get (map (\<lambda>k. (k, f k)) xs) k d = (if k \<in> set xs then f k else d)"
  by (induction xs) auto

lemma dict_set_map_new:
  "k \<notin> set xs \<Longrightarrow> dict_set (map (\<lambda>k. (k, f k)) xs) k v = map (\<lambda>k. (k, f k)) xs @ [(k, v)]"
  by (induction xs) auto

lemma dict_set_map_old:
  "k \<in> set xs \<Longrightarrow> distinct xs \<Longrightarrow>
     dict_set (map (\<lambda>k. (k, f k)) xs) k v = map (\<lambda>k'. (k', if k' = k then v else f k')) xs"
  by (induction xs) auto

lemma tally_snoc:
  "tally (ks @ [k]) = dict_set (tally ks) k (dict_get (tally ks) k 0 + 1)"
proof (cases "k \<in> set ks")
  case True
  then have "k \<in> set (first_seen ks)" by (simp add: set_first_seen)
  then show ?thesis
    using True
    by (simp add: tally_def first_seen_snoc dict_get_map
        dict_set_map_old [OF _ distinct_first_seen])
next
  case False
  then have "k \<notin> set (first_seen ks)" by (simp add: set_first_seen)
  moreover have "map (\<lambda>k'. (k', count_list (ks @ [k]) k')) (first_seen ks) =
    map (\<lambda>k'. (k', count_list ks k')) (first_seen ks)"
    using False by (auto simp: set_first_seen)
  ultimately show ?thesis
    using False
    by (simp add: tally_def first_seen_snoc dict_get_map dict_set_map_new)
qed

lemma failure_keys_snoc:
  "failure_keys (lg @ [(i, r)]) =
     (if truthy (error_key r) then failure_keys lg @ [the (error_key r)] else failure_keys lg)"
  by (simp add: failure_keys_def)

lemma record_result_fields:
  "total_processed (record_result i r a) = i + 1"
  "successful_lookups (record_result i r a) + failed_lookups (record_result i r a) =
     successful_lookups a + failed_lookups a + 1"
  "length (timings (record_result i r a)) + successful_lookups a =
     length (timings a) + successful_lookups (record_result i r a)"
  "failed_lookups (record_result i r a) =
     failed_lookups a + (if truthy (error_key r) then 1 else 0)"
  "error_counts (record_result i r a) =
     (if truthy (error_key r)
      then dict_set (error_counts a) (the (error_key r))
             (dict_get (error_counts a) (the (error_key r)) 0 + 1)
      else error_counts a)"
  by (simp_all add: record_result_def Let_def)

lemma inv_acc_step:
  assumes "inv_acc s" "step n t0 e s = Inr s'"
  shows "inv_acc s'"
  using assms(2)
proof (cases rule: stepE)
  case (Acquire i t)
  from acquire_effect(7,8,9) [OF Acquire(2)] assms(1) show ?thesis
    by (simp add: inv_acc_def)
next
  case (Settle i t outcome)
  from settle_effect(7,8,9) [OF Settle(2)] assms(1) show ?thesis
    by (simp add: inv_acc_def)
next
  case (Consume t)
  from Consume(2) obtain i rest r pl where
    s': "s' = s\<lparr>tasks := (tasks s)[i := (fst (tasks s ! i), Consumed)],
            done_queue := rest,
            loop_index := loop_index s + 1,
            acc := record_result (loop_index s) r (acc s),
            printed := printed s @ [pl],
            consumed_log := consumed_log s @ [(i, r)]\<rparr>"
    by (rule consumeE)
  have f: "acc s' = record_result (loop_index s) r (acc s)"
    "consumed_log s' = consumed_log s @ [(i, r)]" "loop_index s' = loop_index s + 1"
    by (simp_all add: s')
  from assms(1) have a: "total_processed (acc s) = loop_index s"
    "successful_lookups (acc s) + failed_lookups (acc s) = loop_index s"
    "length (timings (acc s)) = successful_lookups (acc s)"
    "failed_lookups (acc s) = length (failure_keys (consumed_log s))"
    "error_counts (acc s) = tally (failure_keys (consumed_log s))"
    by (simp_all add: inv_acc_def)
  have "total_processed (acc s') = loop_index s'"
    by (simp add: f record_result_fields(1))
  moreover have "successful_lookups (acc s') + failed_lookups (acc s') = loop_index s'"
    using a(2) by (simp add: f record_result_fields(2))
  moreover have "length (timings (acc s')) = successful_lookups (acc s')"
    using a(3) record_result_fields(3) [of "loop_index s" r "acc s"] by (simp add: f)
  moreover have "failed_lookups (acc s') = length (failure_keys (consumed_log s'))"
    by (simp add: f record_result_fields(4) failure_keys_snoc a(4))
  moreover have "error_counts (acc s') = tally (failure_keys (consumed_log s'))"
    by (simp add: f record_result_fields(5) failure_keys_snoc tally_snoc a(5))
  ultimately show ?thesis by (simp add: inv_acc_def)
qed

lemma inv_init: "inv N ds (init_state N srv ds)"
  by (simp add: inv_def inv_sem_def inv_tasks_def inv_queue_def inv_log_def inv_dom_def
      inv_acc_def init_state_def in_flight_def consumed_count_def indices_where_def
      initial_run_state_def failure_keys_def tally_def comp_def)

lemma inv_step:
  assumes "inv N ds s" "step n t0 e s = Inr s'"
  shows "inv N ds s'"
proof -
  from assms(1) have i: "inv_sem N s" "inv_tasks ds s" "inv_queue s"
    "loop_index s = consumed_count s" "inv_log s" "inv_dom ds s" "inv_acc s"
    by (simp_all add: inv_def)
  have "inv_sem N s'"
    using i(1) step_counts(1) [OF assms(2)] by (simp add: inv_sem_def)
  moreover have "loop_index s' = consumed_count s'"
    using i(4) step_counts(4) [OF assms(2)] by simp
  ultimately show ?thesis
    using inv_tasks_step [OF i(2) assms(2)] inv_queue_step [OF i(3) assms(2)]
      inv_log_step [OF i(5) assms(2)] inv_dom_step [OF i(6) i(2) assms(2)]
      inv_acc_step [OF i(7) assms(2)]
    by (simp add: inv_def)
qed

lemma inv_run:
  assumes "run n t0 evs (init_state N srv ds) = Inr s"
  shows "inv N ds s"
  using assms
proof (induction rule: run_induct)
  case init
  show ?case by (rule inv_init)
next
  case (step es s e s')
  then show ?case using inv_step by blast
qed

subsection \<open>Traces, progress and termination\<close>

lemma run_append: "run n t0 (es @ es') s = bindE (run n t0 es s) (run n t0 es')"
  by (induction es arbitrary: s) (simp_all add: bindE_def split: sum.splits)

lemma acquire_trace:
  assumes "run n t0 evs (init_state N srv ds) = Inr s"
  shows "\<forall>i < length (tasks s).
           length (filter (is_acquire_of i) evs) = (if snd (tasks s ! i) = Pending then 0 else 1)"
  using assms
proof (induction rule: run_induct)
  case init
  show ?case by (simp add: init_state_def)
next
  case (step es s e s')
  from step.hyps(2) show ?case
  proof (cases rule: stepE)
    case (Acquire j t)
    from Acquire(2) obtain a: "j < length (tasks s)" "snd (tasks s ! j) = Pending"
      and ts: "tasks s' = (tasks s)[j := (fst (tasks s ! j), InFlight t)]"
      by (rule acquireE) simp
    show ?thesis
      using step.IH a by (auto simp: Acquire(1) ts nth_list_update)
  next
    case (Settle j t outcome)
    from Settle(2) obtain t1 where a: "j < length (tasks s)" "snd (tasks s ! j) = InFlight t1"
      and ts: "tasks s' = (tasks s)[j := (fst (tasks s ! j),
                        Completed (query_domain t1 t outcome (fst (tasks s ! j))))]"
      by (rule settleE) simp
    show ?thesis
      using step.IH a by (auto simp: Settle(1) ts nth_list_update)
  next
    case (Consume t)
    from Consume(2) obtain j r where a: "j < length (tasks s)" "snd (tasks s ! j) = Completed r"
      and ts: "tasks s' = (tasks s)[j := (fst (tasks s ! j), Consumed)]"
      by (rule consumeE) simp
    show ?thesis
      using step.IH a by (auto simp: Consume(1) ts nth_list_update)
  qed
qed

lemma consume_trace:
  assumes "run n t0 evs (init_state N srv ds) = Inr s"
  shows "length (filter is_consume evs) = loop_index s"
  using assms
proof (induction rule: run_induct)
  case init
  show ?case by (simp add: init_state_def)
next
  case (step es s e s')
  then show ?case using step_counts(5) [OF step.hyps(2)] by simp
qed

lemma remaining_init: "remaining (init_state N srv ds) = 3 * length ds"
  by (simp add: remaining_def init_state_def comp_def sum_list_triv)

lemma run_length:
  assumes "run n t0 evs (init_state N srv ds) = Inr s"
  shows "length evs + remaining s = 3 * length ds"
  using assms
proof (induction rule: run_induct)
  case init
  show ?case by (simp add: remaining_init)
next
  case (step es s e s')
  then show ?case using step_counts(2) [OF step.hyps(2)] by simp
qed

lemma progress_line_total:
  "0 < n \<Longrightarrow> \<exists>pl. progress_line n t0 t st = Inr pl"
  by (simp add: progress_line_def Let_def py_div_def bindE_simps)

lemma all_consumed_iff:
  "consumed_count s = length (tasks s) \<longleftrightarrow> (\<forall>t \<in> set (tasks s). snd t = Consumed)"
proof -
  have "length (filter (\<lambda>t. snd t = Consumed) (tasks s)) +
        length (filter (\<lambda>t. \<not> snd t = Consumed) (tasks s)) = length (tasks s)"
    by (rule sum_length_filter_compl)
  then have "consumed_count s = length (tasks s) \<longleftrightarrow>
             filter (\<lambda>t. \<not> snd t = Consumed) (tasks s) = []"
    by (auto simp: consumed_count_def)
  then show ?thesis by (simp add: filter_empty_conv)
qed

lemma progress:
  assumes "inv N ds s" "1 \<le> N" "\<not> finished s"
  shows "\<exists>e s'. step (length ds) t0 e s = Inr s'"
proof (cases "done_queue s")
  case (Cons i rest)
  from assms(1) have "set (done_queue s) = indices_where is_completed (tasks s)"
    by (simp add: inv_def inv_queue_def)
  with Cons have i: "i < length (tasks s)" "is_completed (snd (tasks s ! i))"
    by (auto simp: indices_where_mem)
  then obtain r where r: "snd (tasks s ! i) = Completed r"
    by (cases "snd (tasks s ! i)") auto
  from assms(1) have "length (tasks s) = length ds"
    using inv_tasks_length [of ds s] by (simp add: inv_def)
  with i(1) have "0 < length ds" by linarith
  from progress_line_total [OF this] obtain pl
    where "progress_line (length ds) t0 0 (record_result (loop_index s) r (acc s)) = Inr pl"
    by blast
  then have "\<exists>s'. step (length ds) t0 (Consume 0) s = Inr s'"
    using Cons i(1) r by (simp add: consume_def Let_def)
  then show ?thesis by blast
next
  case Nil
  from assms(1) have q: "indices_where is_completed (tasks s) = {}"
    using Nil by (simp add: inv_def inv_queue_def)
  from assms(1,3) have "consumed_count s \<noteq> length (tasks s)"
    by (simp add: inv_def finished_def)
  then obtain x where x: "x \<in> set (tasks s)" "snd x \<noteq> Consumed"
    using all_consumed_iff by blast
  then obtain j where j: "j < length (tasks s)" "tasks s ! j = x"
    by (auto simp: in_set_conv_nth)
  show ?thesis
  proof (cases "\<exists>k < length (tasks s). is_in_flight (snd (tasks s ! k))")
    case True
    then obtain k t1 where k: "k < length (tasks s)" "snd (tasks s ! k) = InFlight t1"
      by (metis is_in_flight.elims(2))
    then have "\<exists>s'. step (length ds) t0 (Settle k 0 Answer) s = Inr s'"
      by (simp add: settle_def)
    then show ?thesis by blast
  next
    case False
    then have "\<forall>t \<in> set (tasks s). \<not> is_in_flight (snd t)"
      by (metis in_set_conv_nth)
    then have "filter (\<lambda>t. is_in_flight (snd t)) (tasks s) = []"
      by (simp add: filter_empty_conv)
    then have "in_flight s = 0" by (simp add: in_flight_def)
    with assms(1,2) have sem: "0 < sem_value s" by (simp add: inv_def inv_sem_def)
    from False j have "\<not> is_in_flight (snd x)" by auto
    moreover from q j have "\<not> is_completed (snd x)" by (auto simp: indices_where_def)
    ultimately have "snd x = Pending" using x(2) by (cases "snd x") auto
    with j sem have "\<exists>s'. step (length ds) t0 (Acquire j 0) s = Inr s'"
      by (simp add: acquire_def)
    then show ?thesis by blast
  qed
qed

lemma completes_from:
  assumes "inv N ds s" "1 \<le> N"
  shows "\<exists>evs s'. run (length ds) t0 evs s = Inr s' \<and> finished s'"
  using assms(1)
proof (induction "remaining s" arbitrary: s rule: less_induct)
  case less
  show ?case
  proof (cases "finished s")
    case True
    then have "run (length ds) t0 [] s = Inr s \<and> finished s" by simp
    then show ?thesis by blast
  next
    case False
    from progress [OF less.prems assms(2) False] obtain e s1
      where st: "step (length ds) t0 e s = Inr s1" by blast
    from step_counts(2) [OF st] have "remaining s1 < remaining s" by simp
    moreover from inv_step [OF less.prems st] have "inv N ds s1" .
    ultimately obtain evs s' where "run (length ds) t0 evs s1 = Inr s'" "finished s'"
      using less.hyps by blast
    with st have "run (length ds) t0 (e # evs) s = Inr s' \<and> finished s'"
      by (simp add: bindE_simps)
    then show ?thesis by blast
  qed
qed

lemma run_extends_to_finish:
  assumes "run (length ds) t0 evs (init_state N srv ds) = Inr s" "1 \<le> N"
  shows "\<exists>evs' s'. run (length ds) t0 (evs @ evs') (init_state N srv ds) = Inr s' \<and> finished s'"
proof -
  from completes_from [OF inv_run [OF assms(1)] assms(2)] obtain evs' s'
    where "run (length ds) t0 evs' s = Inr s'" "finished s'" by blast
  with assms(1) have "run (length ds) t0 (evs @ evs') (init_state N srv ds) = Inr s' \<and> finished s'"
    by (simp add: run_append bindE_simps)
  then show ?thesis by blast
qed

subsection \<open>The example runs\<close>

lemmas run_eval =
  init_state_def acquire_def settle_def consume_def record_result_def progress_line_def
  query_domain_def py_div_def bindE_simps Let_def initial_run_state_def QUERY_TYPE_def
  TIMEOUT_def error_key_def time_taken_def demo_servers_def

lemma failing_run:
  "run 4 0 failing_schedule (init_state 2 demo_servers failing_domains) = Inr failing_final"
  by (simp add: failing_schedule_def failing_domains_def failing_final_def run_eval)

lemma mixed_run:
  "run 3 0 mixed_schedule (init_state 2 demo_servers mixed_domains) = Inr mixed_final"
  by (simp add: mixed_schedule_def mixed_domains_def mixed_final_def run_eval)

lemma two_in_flight_run:
  "run 3 0 [Acquire 0 (1/10), Acquire 1 (1/10)] (init_state 2 demo_servers mixed_domains)
     = Inr two_in_flight"
  by (simp add: mixed_domains_def two_in_flight_def run_eval)

subsection \<open>The summary\<close>

lemma pop_stdev_example:
  "spec_population_stdev [1/100, 2/100, 3/100] = sqrt (1 / 15000)"
  by (simp add: spec_population_stdev_def sum_sq_dev_def power2_eq_square)

lemma sample_vs_population:
  assumes "2 \<le> length xs"
  shows "sqrt (sum_sq_dev xs / (real (length xs) - 1)) =
         sqrt (real (length xs) / (real (length xs) - 1)) * spec_population_stdev xs"
proof -
  from assms have n: "real (length xs) \<noteq> 0" by auto
  have "sum_sq_dev xs / (real (length xs) - 1) =
        (real (length xs) / (real (length xs) - 1)) * (sum_sq_dev xs / real (length xs))"
    using n by simp
  then show ?thesis
    by (simp only: spec_population_stdev_def real_sqrt_mult)
qed

lemma stddev_lines:
  "\<exists>ls. print_summary srv n dur st = Inr ls \<and>
        filter is_stddev_line ls =
          (if 2 \<le> length (timings st)
           then [StandardDeviation
                   (sqrt (sum_sq_dev (timings st) / (real (length (timings st)) - 1)) * 1000)]
           else [])"
proof (cases "timings st = []")
  case True
  then show ?thesis
    using filter_head_breakdown(2) [of srv n dur st]
    by (simp add: print_summary_def performance_metrics_empty bindE_simps)
next
  case False
  from performance_metrics_nonempty [OF False, of n dur] obtain med lo hi
    where "performance_metrics n dur st =
     Inr ([PerformanceMetricsHeader,
           AverageQueryTime (sum_list (timings st) / real (length (timings st)) * 1000),
           MedianQueryTime (med * 1000), MinQueryTime (lo * 1000), MaxQueryTime (hi * 1000)]
          @ (if 1 < length (timings st)
             then [StandardDeviation
                     (sqrt (sum_sq_dev (timings st) / real (length (timings st) - 1)) * 1000)]
             else [])
          @ (if dur > 0 then [OverallAverageQPS (real n / dur)] else []))" by blast
  then show ?thesis
    using filter_head_breakdown(2) [of srv n dur st]
    by (auto simp: print_summary_def bindE_simps of_nat_diff)
qed

lemma qps_lines:
  "\<exists>ls. print_summary srv n dur st = Inr ls \<and>
        filter is_qps_line ls =
          (if timings st \<noteq> [] \<and> 0 < dur then [OverallAverageQPS (real n / dur)] else [])"
proof (cases "timings st = []")
  case True
  then show ?thesis
    using filter_head_breakdown(1) [of srv n dur st]
    by (simp add: print_summary_def performance_metrics_empty bindE_simps)
next
  case False
  from performance_metrics_nonempty [OF False, of n dur] obtain med lo hi
    where "performance_metrics n dur st =
     Inr ([PerformanceMetricsHeader,
           AverageQueryTime (sum_list (timings st) / real (length (timings st)) * 1000),
           MedianQueryTime (med * 1000), MinQueryTime (lo * 1000), MaxQueryTime (hi * 1000)]
          @ (if 1 < length (timings st)
             then [StandardDeviation
                     (sqrt (sum_sq_dev (timings st) / real (length (timings st) - 1)) * 1000)]
             else [])
          @ (if dur > 0 then [OverallAverageQPS (real n / dur)] else []))" by blast
  then show ?thesis
    using filter_head_breakdown(1) [of srv n dur st] False
    by (auto simp: print_summary_def bindE_simps)
qed

lemmas summary_eval =
  print_summary_def performance_metrics_def summary_head_def error_breakdown_def mean_def
  median_def Let_def bindE_simps stdev_total sum_sq_dev_def power2_eq_square py_div_def
  sorted_errors_def sorted_reverse_def demo_servers_def

lemma three_successes_summary:
  "print_summary demo_servers 3 1 three_successes =
   Inr [TestSummaryHeader, DnsServersTested [''192.168.0.2''], TotalDomainsTested 3,
        TotalProcessingTime 1, SuccessfulLookups 3, FailedLookups 0,
        PerformanceMetricsHeader, AverageQueryTime 20, MedianQueryTime 20,
        MinQueryTime 10, MaxQueryTime 30, StandardDeviation 10, OverallAverageQPS 3]"
  by (simp add: three_successes_def summary_eval sqrt_example)


lemma sorted_reverse_mset: "mset (sorted_reverse key xs) = mset xs"
  by (simp add: sorted_reverse_def)

lemma sorted_reverse_descending:
  "sorted_wrt (\<lambda>a b. key b \<le> key a) (sorted_reverse key xs)"
proof -
  have "sorted (map key (sort_key key (rev xs)))" by (rule sorted_sort_key)
  then have "sorted_wrt (\<lambda>a b. key a \<le> key b) (sort_key key (rev xs))"
    by (simp add: sorted_wrt_map)
  then show ?thesis by (simp add: sorted_reverse_def sorted_wrt_rev)
qed

lemma sorted_reverse_stable:
  "filter (\<lambda>x. key x = c) (sorted_reverse key xs) = filter (\<lambda>x. key x = c) xs"
proof -
  have "filter (\<lambda>x. key x = c) (rev (sort_key key (rev xs))) =
        rev (filter (\<lambda>x. key x = c) (sort_key key (rev xs)))"
    by (simp only: rev_filter)
  also have "\<dots> = rev (filter (\<lambda>x. key x = c) (rev xs))"
    by (simp only: sort_key_stable)
  also have "\<dots> = filter (\<lambda>x. key x = c) xs"
    by (simp only: rev_filter rev_rev_ident)
  finally show ?thesis by (simp only: sorted_reverse_def)
qed

lemma error_entry_lines:
  assumes "failed_lookups st = 0 \<longrightarrow> error_counts st = []"
  shows "\<exists>ls. print_summary srv n dur st = Inr ls \<and>
           filter is_error_entry ls =
             map (\<lambda>(k, c). ErrorEntry k c) (sorted_errors (error_counts st))"
proof -
  from print_summary_shape [of srv n dur st] obtain perf
    where p: "print_summary srv n dur st =
                Inr (summary_head srv n dur st @ error_breakdown st @ perf)"
      and q: "performance_metrics n dur st = Inr perf" by blast
  have "filter is_error_entry perf = []"
  proof (cases "timings st = []")
    case True
    with q show ?thesis by (auto simp: performance_metrics_empty)
  next
    case False
    from performance_metrics_nonempty [OF False, of n dur] q show ?thesis by auto
  qed
  moreover have "filter is_error_entry (summary_head srv n dur st) = []"
    by (simp add: summary_head_def)
  moreover have "filter is_error_entry (error_breakdown st) =
      map (\<lambda>(k, c). ErrorEntry k c) (sorted_errors (error_counts st))"
  proof (cases "failed_lookups st = 0")
    case True
    with assms show ?thesis
      by (simp add: error_breakdown_def sorted_errors_def sorted_reverse_def)
  next
    case False
    have "filter is_error_entry (map (\<lambda>(k, c). ErrorEntry k c) xs) =
          map (\<lambda>(k, c). ErrorEntry k c) xs" for xs :: error_dict
      by (induction xs) auto
    with False show ?thesis by (simp add: error_breakdown_def)
  qed
  ultimately show ?thesis using p by simp
qed

subsection \<open>Complete runs\<close>

lemma mixed_length: "length mixed_domains = 3"
  by (simp add: mixed_domains_def)

lemma failing_length: "length failing_domains = 4"
  by (simp add: failing_domains_def)

lemma mixed_run_len:
  "run (length mixed_domains) 0 mixed_schedule (init_state 2 demo_servers mixed_domains)
     = Inr mixed_final"
  using mixed_run by (simp only: mixed_length)

lemma failing_run_len:
  "run (length failing_domains) 0 failing_schedule (init_state 2 demo_servers failing_domains)
     = Inr failing_final"
  using failing_run by (simp only: failing_length)

lemma finished_all_consumed:
  assumes "inv N ds s" "finished s"
  shows "indices_where (\<lambda>x. x = Consumed) (tasks s) = {..<length ds}"
proof -
  from assms have "consumed_count s = length (tasks s)"
    by (simp add: inv_def finished_def)
  then have "\<forall>t \<in> set (tasks s). snd t = Consumed"
    by (simp add: all_consumed_iff)
  then have "indices_where (\<lambda>x. x = Consumed) (tasks s) = {..<length (tasks s)}"
    by (auto simp: indices_where_def)
  with assms(1) inv_tasks_length [of ds s] show ?thesis by (simp add: inv_def)
qed

lemma acquire_count_le:
  assumes "run n t0 evs (init_state N srv ds) = Inr s"
  shows "length (filter (is_acquire_of i) evs) \<le> 1"
proof (cases "i < length (tasks s)")
  case True
  with acquire_trace [OF assms] show ?thesis by simp
next
  case False
  have "\<forall>e \<in> set evs. \<not> is_acquire_of i e"
    using assms False
  proof (induction rule: run_induct)
    case init
    show ?case by simp
  next
    case (step es s e s')
    from step_counts(3) [OF step.hyps(2)] have len: "length (tasks s') = length (tasks s)"
      by (metis length_map)
    with step.prems have "\<not> i < length (tasks s)" by simp
    moreover from this have "\<not> is_acquire_of i e"
      using step.hyps(2) by (cases e) (auto simp: acquire_def split: if_splits)
    ultimately show ?case using step.IH by simp
  qed
  then have "filter (is_acquire_of i) evs = []" by (simp add: filter_empty_conv)
  then show ?thesis by simp
qed

lemma step_never_raises:
  assumes "inv N ds s"
  shows "step (length ds) t0 e s \<noteq> Inl (Raised err)"
proof (cases e)
  case (Acquire i t)
  then show ?thesis by (simp add: acquire_def)
next
  case (Settle i t outcome)
  then show ?thesis by (simp add: settle_def split: task_state.splits)
next
  case (Consume t)
  show ?thesis
  proof (cases "done_queue s")
    case Nil
    with Consume show ?thesis by (simp add: consume_def)
  next
    case (Cons i rest)
    show ?thesis
    proof (cases "i < length (tasks s)")
      case True
      from assms have "length (tasks s) = length ds"
        using inv_tasks_length [of ds s] by (simp add: inv_def)
      with True have "0 < length ds" by linarith
      from progress_line_total [OF this] have
        "\<And>st. progress_line (length ds) t0 t st \<noteq> Inl err"
        by (metis Inl_Inr_False)
      then show ?thesis
        using Consume Cons True
        by (auto simp: consume_def Let_def split: task_state.splits sum.splits)
    next
      case False
      with Consume Cons show ?thesis by (simp add: consume_def)
    qed
  qed
qed

lemma run_never_raises:
  "run (length ds) t0 evs (init_state N srv ds) \<noteq> Inl (Raised err)"
proof (induction evs rule: rev_induct)
  case Nil
  show ?case by simp
next
  case (snoc e es)
  show ?case
  proof (cases "run (length ds) t0 es (init_state N srv ds)")
    case (Inl x)
    with snoc show ?thesis by (simp add: run_snoc bindE_simps)
  next
    case (Inr s)
    from step_never_raises [OF inv_run [OF Inr]] Inr show ?thesis
      by (simp add: run_snoc bindE_simps)
  qed
qed

lemma run_test_with_finished:
  assumes "run (length ds) t0 evs (init_state N srv ds) = Inr s" "finished s"
    and "list_all is_address srv"
  shows "\<exists>ls. print_summary srv (length ds) (t1 - t0) (acc s) = Inr ls \<and>
              run_test_with is_address N srv ds t0 evs t1 = Inr (printed s @ ls)"
proof -
  from print_summary_shape [of srv "length ds" "t1 - t0" "acc s"] obtain ls
    where "print_summary srv (length ds) (t1 - t0) (acc s) = Inr ls" by blast
  with assms show ?thesis
    by (simp add: run_test_with_def configure_resolver_def bindE_simps Let_def)
qed

lemma run_test_with_bad_nameserver:
  "\<not> list_all is_address srv \<Longrightarrow>
     run_test_with is_address N srv ds t0 evs t1 = Inl (Raised ValueError)"
  by (simp add: run_test_with_def configure_resolver_def)

lemma dict_get_dict_set:
  "dict_get (dict_set d k v) k' dflt = (if k' = k then v else dict_get d k' dflt)"
  by (induction d) auto

lemma record_failure:
  assumes "error_key r = Some name" "name \<noteq> []"
  shows "dict_get (error_counts (record_result i r st)) k 0 =
           (if k = name then dict_get (error_counts st) name 0 + 1
            else dict_get (error_counts st) k 0)"
    and "failed_lookups (record_result i r st) = failed_lookups st + 1"
    and "successful_lookups (record_result i r st) = successful_lookups st"
  using assms by (simp_all add: record_result_def Let_def dict_get_dict_set)

section \<open>The claims\<close>

subsection \<open>The concurrency ceiling\<close>

text \<open>
  Claim C1. For every domain list of length \<open>D\<close> and every ceiling \<open>N\<close>, at no instant
  of a run of \<^verbatim>\<open>run_test\<close> are more than \<open>min N D\<close> lookups in flight. A run is any
  sequence of events the engine accepts from its initial state, and every prefix of a
  run is a run, so \<open>s\<close> below ranges over every state a run passes through. The tasks
  past the acquire and the free slots of the semaphore always add up to \<open>N\<close>. The
  statement needs no lower bound on \<open>N\<close>.
\<close>

theorem in_flight_never_exceeds_ceiling:
  assumes "run (length ds) t0 evs (init_state N srv ds) = Inr s"
  shows "in_flight s \<le> min N (length ds) \<and> in_flight s + sem_value s = N"
proof -
  from inv_run [OF assms] have i: "inv_sem N s" "inv_tasks ds s"
    by (simp_all add: inv_def)
  have "in_flight s \<le> length (tasks s)"
    by (simp add: in_flight_def)
  with i show ?thesis
    using inv_tasks_length [OF i(2)] by (simp add: inv_sem_def)
qed

text \<open>
  With three domains and a ceiling of two, two acquires fill the ceiling: the bound
  is reached, and a third acquire is not possible.
\<close>

theorem in_flight_never_exceeds_ceiling_witness:
  "run (length mixed_domains) 0 [Acquire 0 (1/10), Acquire 1 (1/10)]
     (init_state 2 demo_servers mixed_domains) = Inr two_in_flight \<and>
   in_flight two_in_flight = 2 \<and> min 2 (length mixed_domains) = 2 \<and>
   in_flight two_in_flight \<le> min 2 (length mixed_domains) \<and>
   step (length mixed_domains) 0 (Acquire 2 (1/10)) two_in_flight = Inl NotEnabled"
proof -
  have l: "length mixed_domains = 3" by (simp add: mixed_domains_def)
  have r: "run (length mixed_domains) 0 [Acquire 0 (1/10), Acquire 1 (1/10)]
     (init_state 2 demo_servers mixed_domains) = Inr two_in_flight"
    using two_in_flight_run by (simp only: l)
  from in_flight_never_exceeds_ceiling [OF r] r show ?thesis
    by (simp add: l two_in_flight_def in_flight_def acquire_def)
qed

subsection \<open>The counters\<close>

text \<open>
  Claim C2. After every completion event
  \<open>successful_lookups + failed_lookups = total_processed\<close>; each consumed result adds
  one to \<open>total_processed\<close> and to exactly one of the two counters; and
  \<open>total_processed\<close> equals the number of input domains exactly once, at the end of the
  run. In every state of a run \<open>total_processed\<close> is the number of passes of the
  result loop so far, so it grows by one with each pass; it never exceeds the number of
  domains and equals it exactly when the loop is over. With a ceiling of at least one,
  every run can be continued to that end: no state is a deadlock.
\<close>

theorem counters_add_up:
  assumes "run (length ds) t0 evs (init_state N srv ds) = Inr s"
  shows "successful_lookups (acc s) + failed_lookups (acc s) = total_processed (acc s) \<and>
         total_processed (acc s) = length (filter is_consume evs) \<and>
         total_processed (acc s) \<le> length ds \<and>
         (total_processed (acc s) = length ds \<longleftrightarrow> finished s) \<and>
         (1 \<le> N \<longrightarrow>
            (\<exists>evs' s'. run (length ds) t0 (evs @ evs') (init_state N srv ds) = Inr s' \<and>
                       finished s')) \<and>
         (\<forall>r. let st = record_result (loop_index s) r (acc s) in
              total_processed st = total_processed (acc s) + 1 \<and>
              (if truthy (error_key r)
               then failed_lookups st = failed_lookups (acc s) + 1 \<and>
                    successful_lookups st = successful_lookups (acc s)
               else successful_lookups st = successful_lookups (acc s) + 1 \<and>
                    failed_lookups st = failed_lookups (acc s)))"
proof -
  from inv_run [OF assms] have i: "inv_tasks ds s" "loop_index s = consumed_count s"
    "inv_acc s"
    by (simp_all add: inv_def)
  from i(3) have a: "total_processed (acc s) = loop_index s"
    "successful_lookups (acc s) + failed_lookups (acc s) = loop_index s"
    by (simp_all add: inv_acc_def)
  have "consumed_count s \<le> length (tasks s)" by (simp add: consumed_count_def)
  then have le: "total_processed (acc s) \<le> length ds"
    using a(1) i(2) inv_tasks_length [OF i(1)] by simp
  have fin: "total_processed (acc s) = length ds \<longleftrightarrow> finished s"
    using a(1) inv_tasks_length [OF i(1)] by (simp add: finished_def)
  have ext: "1 \<le> N \<longrightarrow>
            (\<exists>evs' s'. run (length ds) t0 (evs @ evs') (init_state N srv ds) = Inr s' \<and>
                       finished s')"
    using run_extends_to_finish [OF assms] by blast
  have one: "\<forall>r. let st = record_result (loop_index s) r (acc s) in
              total_processed st = total_processed (acc s) + 1 \<and>
              (if truthy (error_key r)
               then failed_lookups st = failed_lookups (acc s) + 1 \<and>
                    successful_lookups st = successful_lookups (acc s)
               else successful_lookups st = successful_lookups (acc s) + 1 \<and>
                    failed_lookups st = failed_lookups (acc s))"
    using a(1) by (simp add: record_result_def Let_def)
  from a consume_trace [OF assms] le fin ext one show ?thesis by simp
qed

theorem counters_add_up_witness:
  "run (length mixed_domains) 0 mixed_schedule (init_state 2 demo_servers mixed_domains)
     = Inr mixed_final \<and> (1::nat) \<le> 2 \<and>
   successful_lookups (acc mixed_final) = 2 \<and> failed_lookups (acc mixed_final) = 1 \<and>
   total_processed (acc mixed_final) = 3 \<and> length (filter is_consume mixed_schedule) = 3 \<and>
   length mixed_domains = 3 \<and> finished mixed_final"
  using counters_add_up [OF mixed_run_len] mixed_run_len
  by (simp add: mixed_final_def mixed_length finished_def mixed_schedule_def)

subsection \<open>One outcome per domain\<close>

text \<open>
  Claim C3. Each entry of the domain list gives rise to exactly one outcome record:
  \<^verbatim>\<open>run_test\<close> creates one task per entry and consumes each task's result exactly
  once. At any moment no task has passed the acquire more than once, no task occurs
  twice in the log of consumed results, and every logged result names the domain of
  its task. When the loop is over, every task has been queried exactly once, the
  logged tasks are exactly the tasks, the logged domains are the input list up to
  order (as multisets, so a name that the input holds twice is queried twice, and a
  list without repetitions gives a log without repetitions), and the two counters add
  up to the number of entries.
\<close>

theorem one_outcome_per_domain:
  assumes "run (length ds) t0 evs (init_state N srv ds) = Inr s"
  shows "(\<forall>i. length (filter (is_acquire_of i) evs) \<le> 1) \<and>
         distinct (map fst (consumed_log s)) \<and>
         (\<forall>p \<in> set (consumed_log s). fst p < length ds \<and> fst (snd p) = ds ! fst p) \<and>
         (finished s \<longrightarrow>
            (\<forall>i < length ds. length (filter (is_acquire_of i) evs) = 1) \<and>
            mset (map fst (consumed_log s)) = mset [0..<length ds] \<and>
            mset (map (\<lambda>p. fst (snd p)) (consumed_log s)) = mset ds \<and>
            (distinct ds \<longrightarrow> distinct (map (\<lambda>p. fst (snd p)) (consumed_log s))) \<and>
            successful_lookups (acc s) + failed_lookups (acc s) = length ds)"
proof -
  note i = inv_run [OF assms]
  from i have lg: "distinct (map fst (consumed_log s))"
    "set (map fst (consumed_log s)) = indices_where (\<lambda>x. x = Consumed) (tasks s)"
    by (simp_all add: inv_def inv_log_def)
  from i have dm: "\<forall>p \<in> set (consumed_log s). fst p < length ds \<and> fst (snd p) = ds ! fst p"
    by (simp add: inv_def inv_dom_def)
  from i have len: "length (tasks s) = length ds"
    using inv_tasks_length [of ds s] by (simp add: inv_def)
  from i have cnt: "successful_lookups (acc s) + failed_lookups (acc s) = loop_index s"
    by (simp add: inv_def inv_acc_def)
  have once: "\<forall>i. length (filter (is_acquire_of i) evs) \<le> 1"
    using acquire_count_le [OF assms] by blast
  have fin: "(\<forall>i < length ds. length (filter (is_acquire_of i) evs) = 1) \<and>
            mset (map fst (consumed_log s)) = mset [0..<length ds] \<and>
            mset (map (\<lambda>p. fst (snd p)) (consumed_log s)) = mset ds \<and>
            (distinct ds \<longrightarrow> distinct (map (\<lambda>p. fst (snd p)) (consumed_log s))) \<and>
            successful_lookups (acc s) + failed_lookups (acc s) = length ds"
    if f: "finished s"
  proof -
    from finished_all_consumed [OF i f]
    have all: "indices_where (\<lambda>x. x = Consumed) (tasks s) = {..<length ds}" .
    have q: "\<forall>i < length ds. length (filter (is_acquire_of i) evs) = 1"
    proof (intro allI impI)
      fix j assume j: "j < length ds"
      with all have "j \<in> indices_where (\<lambda>x. x = Consumed) (tasks s)" by simp
      then have "snd (tasks s ! j) = Consumed" by (simp add: indices_where_mem)
      with acquire_trace [OF assms] j len
      show "length (filter (is_acquire_of j) evs) = 1" by simp
    qed
    have "set (map fst (consumed_log s)) = set [0..<length ds]"
      using lg(2) all by (simp add: lessThan_atLeast0)
    with lg(1) have m: "mset (map fst (consumed_log s)) = mset [0..<length ds]"
      using set_eq_iff_mset_eq_distinct [of "map fst (consumed_log s)" "[0..<length ds]"]
      by simp
    have "map (\<lambda>p. fst (snd p)) (consumed_log s) = map (\<lambda>i. ds ! i) (map fst (consumed_log s))"
      using dm by simp
    then have "mset (map (\<lambda>p. fst (snd p)) (consumed_log s)) =
               image_mset (\<lambda>i. ds ! i) (mset (map fst (consumed_log s)))"
      by (simp only: mset_map)
    also have "\<dots> = image_mset (\<lambda>i. ds ! i) (mset [0..<length ds])"
      by (simp only: m)
    also have "\<dots> = mset (map (\<lambda>i. ds ! i) [0..<length ds])"
      by (simp only: mset_map)
    also have "\<dots> = mset ds" by (simp only: map_nth)
    finally have d: "mset (map (\<lambda>p. fst (snd p)) (consumed_log s)) = mset ds" .
    from f cnt len have "successful_lookups (acc s) + failed_lookups (acc s) = length ds"
      by (simp add: finished_def)
    moreover from d have
      "distinct ds \<longrightarrow> distinct (map (\<lambda>p. fst (snd p)) (consumed_log s))"
      using mset_eq_imp_distinct_iff by blast
    ultimately show ?thesis using q m d by blast
  qed
  from once lg(1) dm fin show ?thesis by blast
qed

theorem one_outcome_per_domain_witness:
  "run (length mixed_domains) 0 mixed_schedule (init_state 2 demo_servers mixed_domains)
     = Inr mixed_final \<and> finished mixed_final \<and>
   map fst (consumed_log mixed_final) = [1, 2, 0] \<and>
   mset (map (\<lambda>p. fst (snd p)) (consumed_log mixed_final)) = mset mixed_domains \<and>
   length (filter (is_acquire_of 0) mixed_schedule) = 1 \<and>
   length (filter (is_acquire_of 1) mixed_schedule) = 1 \<and>
   length (filter (is_acquire_of 2) mixed_schedule) = 1 \<and>
   successful_lookups (acc mixed_final) + failed_lookups (acc mixed_final) =
     length mixed_domains"
proof -
  have f: "finished mixed_final" by (simp add: finished_def mixed_final_def)
  have c: "map fst (consumed_log mixed_final) = [1, 2, 0]"
    "length (filter (is_acquire_of 0) mixed_schedule) = 1"
    "length (filter (is_acquire_of 1) mixed_schedule) = 1"
    "length (filter (is_acquire_of 2) mixed_schedule) = 1"
    by (simp_all add: mixed_final_def mixed_schedule_def)
  from one_outcome_per_domain [OF mixed_run_len] f
  have "mset (map (\<lambda>p. fst (snd p)) (consumed_log mixed_final)) = mset mixed_domains"
    and "successful_lookups (acc mixed_final) + failed_lookups (acc mixed_final) =
     length mixed_domains"
    by blast+
  with mixed_run_len f c show ?thesis by blast
qed

subsection \<open>The error breakdown\<close>

text \<open>
  Claim C7. The printed error breakdown lists the kinds in descending order of count,
  kinds with equal counts in the order in which they were first observed. In every
  state of a run the dictionary holds, for each key observed so far, the number of its
  occurrences, the keys in the order of their first occurrence. The sorted list is a
  rearrangement of the dictionary's items with descending counts, and for each count
  the items with that count stand in the dictionary's order. The summary prints
  exactly the sorted list.
\<close>

theorem error_breakdown_sorted_stable:
  assumes "run (length ds) t0 evs (init_state N srv ds) = Inr s"
  shows "error_counts (acc s) =
           map (\<lambda>k. (k, count_list (failure_keys (consumed_log s)) k))
             (first_seen (failure_keys (consumed_log s))) \<and>
         sorted_wrt (\<lambda>a b. snd b \<le> snd a) (sorted_errors (error_counts (acc s))) \<and>
         mset (sorted_errors (error_counts (acc s))) = mset (error_counts (acc s)) \<and>
         (\<forall>c. filter (\<lambda>kv. snd kv = c) (sorted_errors (error_counts (acc s))) =
              filter (\<lambda>kv. snd kv = c) (error_counts (acc s))) \<and>
         (\<exists>ls. print_summary srv (length ds) dur (acc s) = Inr ls \<and>
               filter is_error_entry ls =
                 map (\<lambda>(k, c). ErrorEntry k c) (sorted_errors (error_counts (acc s))))"
proof -
  from inv_run [OF assms] have a: "failed_lookups (acc s) = length (failure_keys (consumed_log s))"
    "error_counts (acc s) = tally (failure_keys (consumed_log s))"
    by (simp_all add: inv_def inv_acc_def)
  from a have "failed_lookups (acc s) = 0 \<longrightarrow> error_counts (acc s) = []"
    by (simp add: tally_def)
  from error_entry_lines [OF this, of srv "length ds" dur]
  have p: "\<exists>ls. print_summary srv (length ds) dur (acc s) = Inr ls \<and>
               filter is_error_entry ls =
                 map (\<lambda>(k, c). ErrorEntry k c) (sorted_errors (error_counts (acc s)))" .
  have "error_counts (acc s) =
           map (\<lambda>k. (k, count_list (failure_keys (consumed_log s)) k))
             (first_seen (failure_keys (consumed_log s)))"
    using a(2) by (simp only: tally_def)
  moreover have "sorted_wrt (\<lambda>a b. snd b \<le> snd a) (sorted_errors (error_counts (acc s)))"
    unfolding sorted_errors_def by (rule sorted_reverse_descending)
  moreover have "mset (sorted_errors (error_counts (acc s))) = mset (error_counts (acc s))"
    unfolding sorted_errors_def by (rule sorted_reverse_mset)
  moreover have "\<forall>c. filter (\<lambda>kv. snd kv = c) (sorted_errors (error_counts (acc s))) =
              filter (\<lambda>kv. snd kv = c) (error_counts (acc s))"
    unfolding sorted_errors_def by (simp add: sorted_reverse_stable)
  ultimately show ?thesis using p by blast
qed

text \<open>
  In the run of four failing lookups the keys arrive as NoAnswer, Timeout, NXDOMAIN,
  Timeout: Timeout comes first with two, then NoAnswer before NXDOMAIN, both with one.
\<close>

theorem error_breakdown_sorted_stable_witness:
  "run (length failing_domains) 0 failing_schedule (init_state 2 demo_servers failing_domains)
     = Inr failing_final \<and>
   failure_keys (consumed_log failing_final) = [''NoAnswer'', ''Timeout'', ''NXDOMAIN'', ''Timeout''] \<and>
   error_counts (acc failing_final) = [(''NoAnswer'', 1), (''Timeout'', 2), (''NXDOMAIN'', 1)] \<and>
   sorted_errors (error_counts (acc failing_final)) =
     [(''Timeout'', 2), (''NoAnswer'', 1), (''NXDOMAIN'', 1)] \<and>
   sorted_wrt (\<lambda>a b. snd b \<le> snd a) (sorted_errors (error_counts (acc failing_final))) \<and>
   filter (\<lambda>kv. snd kv = 1) (sorted_errors (error_counts (acc failing_final))) =
     filter (\<lambda>kv. snd kv = 1) (error_counts (acc failing_final))"
proof -
  have c: "failure_keys (consumed_log failing_final) =
             [''NoAnswer'', ''Timeout'', ''NXDOMAIN'', ''Timeout'']"
    "error_counts (acc failing_final) = [(''NoAnswer'', 1), (''Timeout'', 2), (''NXDOMAIN'', 1)]"
    "sorted_errors (error_counts (acc failing_final)) =
     [(''Timeout'', 2), (''NoAnswer'', 1), (''NXDOMAIN'', 1)]"
    by (simp_all add: failing_final_def failure_keys_def error_key_def sorted_errors_def
        sorted_reverse_def)
  from error_breakdown_sorted_stable [OF failing_run_len, where dur = 1]
  have "sorted_wrt (\<lambda>a b. snd b \<le> snd a) (sorted_errors (error_counts (acc failing_final)))"
    and "filter (\<lambda>kv. snd kv = 1) (sorted_errors (error_counts (acc failing_final))) =
     filter (\<lambda>kv. snd kv = 1) (error_counts (acc failing_final))"
    by blast+
  with failing_run_len c show ?thesis by blast
qed

subsection \<open>The classifier\<close>

text \<open>
  Claim C6. When the lookup fails with \<^verbatim>\<open>Timeout\<close>, \<^verbatim>\<open>query_domain\<close> reports the
  constant \<open>TIMEOUT\<close> as the elapsed time, whatever the clock read, under the key
  \<^verbatim>\<open>Timeout\<close>; on every other outcome it reports the difference of the two clock
  readings.
\<close>

theorem timeout_reports_configured_constant:
  "time_taken (query_domain start_time end_time outcome domain) =
     (case outcome of
        Answer \<Rightarrow> end_time - start_time
      | Raises e \<Rightarrow> (if exc_type e = Timeout then TIMEOUT else end_time - start_time)) \<and>
   (\<forall>e. outcome = Raises e \<and> exc_type e = Timeout \<longrightarrow>
      error_key (query_domain start_time end_time outcome domain) = Some ''Timeout'')"
  by (simp add: query_domain_def time_taken_def error_key_def
      split: resolve_outcome.splits exc_class.splits)

text \<open>A timeout measured at 2.25 seconds is reported as 2; a missing name as 2.25.\<close>

theorem timeout_reports_configured_constant_witness:
  "exc_type timed_out = Timeout \<and>
   time_taken (query_domain 0 (9/4) (Raises timed_out) ''google.com'') = 2 \<and>
   error_key (query_domain 0 (9/4) (Raises timed_out) ''google.com'') = Some ''Timeout'' \<and>
   exc_type no_such_name \<noteq> Timeout \<and>
   time_taken (query_domain 0 (9/4) (Raises no_such_name) ''google.com'') = 9/4 \<and>
   time_taken (query_domain 0 (9/4) Answer ''google.com'') = 9/4"
  using timeout_reports_configured_constant [of 0 "9/4" "Raises timed_out" "''google.com''"]
    timeout_reports_configured_constant [of 0 "9/4" "Raises no_such_name" "''google.com''"]
    timeout_reports_configured_constant [of 0 "9/4" Answer "''google.com''"]
  by (simp add: timed_out_def no_such_name_def TIMEOUT_def)

text \<open>
  Claim C9. Two exceptions of the same class that none of the first three
  \<^verbatim>\<open>except\<close> clauses catches get the same error key, the name of the class, whatever
  their messages, the domains and the clock readings. Both are then counted in the
  same entry of the dictionary of error counts: recording one of them raises the count
  under the name of the class by one, recording both raises it by two, adds two to the
  failed lookups, none to the successful ones, and leaves the count of every other key
  as it was. The counting is stated for a class whose name is not the empty string:
  \<^verbatim>\<open>if error_key:\<close> takes the empty string for no error, so an exception of a class
  with an empty name is not tallied under any key.
\<close>

theorem same_exception_type_same_kind:
  assumes "exc_type e1 = OtherException name" and "exc_type e2 = OtherException name"
  shows "error_key (query_domain s1 t1 (Raises e1) d1) = Some name \<and>
         error_key (query_domain s2 t2 (Raises e2) d2) = Some name \<and>
         (name \<noteq> [] \<longrightarrow>
            dict_get (error_counts (record_result i (query_domain s1 t1 (Raises e1) d1) st))
              name 0 = dict_get (error_counts st) name 0 + 1 \<and>
            dict_get (error_counts
                (record_result j (query_domain s2 t2 (Raises e2) d2)
                   (record_result i (query_domain s1 t1 (Raises e1) d1) st)))
              name 0 = dict_get (error_counts st) name 0 + 2 \<and>
            (\<forall>k. k \<noteq> name \<longrightarrow>
               dict_get (error_counts
                   (record_result j (query_domain s2 t2 (Raises e2) d2)
                      (record_result i (query_domain s1 t1 (Raises e1) d1) st)))
                 k 0 = dict_get (error_counts st) k 0) \<and>
            failed_lookups
              (record_result j (query_domain s2 t2 (Raises e2) d2)
                 (record_result i (query_domain s1 t1 (Raises e1) d1) st)) =
              failed_lookups st + 2 \<and>
            successful_lookups
              (record_result j (query_domain s2 t2 (Raises e2) d2)
                 (record_result i (query_domain s1 t1 (Raises e1) d1) st)) =
              successful_lookups st)"
proof -
  have k1: "error_key (query_domain s1 t1 (Raises e1) d1) = Some name"
    using assms(1) by (simp add: query_domain_def error_key_def)
  have k2: "error_key (query_domain s2 t2 (Raises e2) d2) = Some name"
    using assms(2) by (simp add: query_domain_def error_key_def)
  have "dict_get (error_counts (record_result i (query_domain s1 t1 (Raises e1) d1) st))
              name 0 = dict_get (error_counts st) name 0 + 1 \<and>
            dict_get (error_counts
                (record_result j (query_domain s2 t2 (Raises e2) d2)
                   (record_result i (query_domain s1 t1 (Raises e1) d1) st)))
              name 0 = dict_get (error_counts st) name 0 + 2 \<and>
            (\<forall>k. k \<noteq> name \<longrightarrow>
               dict_get (error_counts
                   (record_result j (query_domain s2 t2 (Raises e2) d2)
                      (record_result i (query_domain s1 t1 (Raises e1) d1) st)))
                 k 0 = dict_get (error_counts st) k 0) \<and>
            failed_lookups
              (record_result j (query_domain s2 t2 (Raises e2) d2)
                 (record_result i (query_domain s1 t1 (Raises e1) d1) st)) =
              failed_lookups st + 2 \<and>
            successful_lookups
              (record_result j (query_domain s2 t2 (Raises e2) d2)
                 (record_result i (query_domain s1 t1 (Raises e1) d1) st)) =
              successful_lookups st"
    if n: "name \<noteq> []"
    by (simp add: record_failure [OF k1 n] record_failure [OF k2 n])
  with k1 k2 show ?thesis by blast
qed

text \<open>
  Two failures of class NoNameservers with different messages, recorded from the
  initial accumulators: the count under NoNameservers goes from 0 to 1 to 2.
\<close>

theorem same_exception_type_same_kind_witness:
  "exc_type no_nameservers_a = OtherException ''NoNameservers'' \<and>
   exc_type no_nameservers_b = OtherException ''NoNameservers'' \<and>
   ''NoNameservers'' \<noteq> [] \<and>
   exc_message no_nameservers_a \<noteq> exc_message no_nameservers_b \<and>
   error_key (query_domain 0 (1/10) (Raises no_nameservers_a) ''google.com'') = Some ''NoNameservers'' \<and>
   error_key (query_domain 1 (3/2) (Raises no_nameservers_b) ''github.com'') = Some ''NoNameservers'' \<and>
   dict_get (error_counts initial_run_state) ''NoNameservers'' 0 = 0 \<and>
   dict_get (error_counts
       (record_result 0 (query_domain 0 (1/10) (Raises no_nameservers_a) ''google.com'')
          initial_run_state)) ''NoNameservers'' 0 = 1 \<and>
   dict_get (error_counts
       (record_result 1 (query_domain 1 (3/2) (Raises no_nameservers_b) ''github.com'')
          (record_result 0 (query_domain 0 (1/10) (Raises no_nameservers_a) ''google.com'')
             initial_run_state))) ''NoNameservers'' 0 = 2"
proof -
  have a: "exc_type no_nameservers_a = OtherException ''NoNameservers''"
    and b: "exc_type no_nameservers_b = OtherException ''NoNameservers''"
    and c: "exc_message no_nameservers_a \<noteq> exc_message no_nameservers_b"
    by (simp_all add: no_nameservers_a_def no_nameservers_b_def)
  have z: "dict_get (error_counts initial_run_state) ''NoNameservers'' 0 = 0"
    by (simp add: initial_run_state_def)
  from same_exception_type_same_kind [OF a b, where ?s1.0 = 0 and ?t1.0 = "1/10"
      and ?d1.0 = "''google.com''" and ?s2.0 = 1 and ?t2.0 = "3/2"
      and ?d2.0 = "''github.com''" and i = 0 and j = 1 and st = initial_run_state] a b c z
  show ?thesis by simp
qed

subsection \<open>The summary's statistics\<close>

text \<open>
  Claim C4, as the code has it. The summary prints a standard deviation exactly when
  there are at least two successful latencies, and it is the sample standard
  deviation that \<^verbatim>\<open>statistics.stdev\<close> computes: the square root of the sum of squared
  deviations from the mean divided by \<open>n - 1\<close>. It exceeds the population standard
  deviation by the factor \<open>sqrt (n / (n - 1))\<close>.
\<close>

theorem stddev_is_sample_stdev:
  "\<exists>ls. print_summary srv n dur st = Inr ls \<and>
        filter is_stddev_line ls =
          (if 2 \<le> length (timings st)
           then [StandardDeviation
                   (sqrt (sum_sq_dev (timings st) / (real (length (timings st)) - 1)) * 1000)]
           else []) \<and>
        (2 \<le> length (timings st) \<longrightarrow>
           sqrt (sum_sq_dev (timings st) / (real (length (timings st)) - 1)) =
           sqrt (real (length (timings st)) / (real (length (timings st)) - 1)) *
             spec_population_stdev (timings st))"
  using stddev_lines [of srv n dur st] sample_vs_population [of "timings st"] by blast

text \<open>For latencies of 10, 20 and 30 milliseconds the summary prints 10 milliseconds.\<close>

theorem stddev_is_sample_stdev_witness:
  "2 \<le> length (timings three_successes) \<and>
   print_summary demo_servers 3 1 three_successes =
     Inr [TestSummaryHeader, DnsServersTested [''192.168.0.2''], TotalDomainsTested 3,
          TotalProcessingTime 1, SuccessfulLookups 3, FailedLookups 0,
          PerformanceMetricsHeader, AverageQueryTime 20, MedianQueryTime 20,
          MinQueryTime 10, MaxQueryTime 30, StandardDeviation 10, OverallAverageQPS 3] \<and>
   sqrt (sum_sq_dev (timings three_successes) / (real (length (timings three_successes)) - 1)) * 1000 = 10 \<and>
   sqrt (3 / 2) * spec_population_stdev (timings three_successes) * 1000 = 10"
  using stddev_is_sample_stdev [of demo_servers 3 1 three_successes] three_successes_summary
  by (simp add: three_successes_def)

text \<open>
  The claim as the specification words it, that the printed value is the population
  standard deviation, fails on these latencies: the population value is below 8.17
  milliseconds, the printed one is 10.
\<close>

theorem stddev_population_counterexample:
  "print_summary demo_servers 3 1 three_successes =
     Inr [TestSummaryHeader, DnsServersTested [''192.168.0.2''], TotalDomainsTested 3,
          TotalProcessingTime 1, SuccessfulLookups 3, FailedLookups 0,
          PerformanceMetricsHeader, AverageQueryTime 20, MedianQueryTime 20,
          MinQueryTime 10, MaxQueryTime 30, StandardDeviation 10, OverallAverageQPS 3] \<and>
   spec_population_stdev [1/100, 2/100, 3/100] * 1000 < 817 / 100 \<and>
   StandardDeviation 10 \<noteq> StandardDeviation (spec_population_stdev [1/100, 2/100, 3/100] * 1000)"
proof -
  have "sqrt (1 / 15000) < 817 / 100000"
    by (rule real_less_lsqrt) (simp_all add: power2_eq_square)
  with pop_stdev_example
  have "spec_population_stdev [1/100, 2/100, 3/100] * 1000 < 817 / 100"
    by linarith
  then show ?thesis using three_successes_summary by simp
qed




text \<open>
  Claim C8. When there is no successful latency at the end of the run, the summary
  prints that there are no successful lookups, prints none of the latency figures and
  raises nothing. For any final state the summary is printed without a raise, and it
  has a line for the standard deviation exactly when there are at least two
  latencies.
\<close>

theorem empty_latencies_no_statistics:
  "(timings st = [] \<longrightarrow>
      print_summary srv n dur st =
        Inr (summary_head srv n dur st @ error_breakdown st @ [NoSuccessfulLookups]) \<and>
      filter is_latency_line
        (summary_head srv n dur st @ error_breakdown st @ [NoSuccessfulLookups]) = []) \<and>
   (\<exists>ls. print_summary srv n dur st = Inr ls \<and>
         (filter is_stddev_line ls \<noteq> [] \<longleftrightarrow> 2 \<le> length (timings st)))"
proof -
  have "timings st = [] \<longrightarrow>
      print_summary srv n dur st =
        Inr (summary_head srv n dur st @ error_breakdown st @ [NoSuccessfulLookups])"
    by (simp add: print_summary_def performance_metrics_empty bindE_simps)
  moreover have "filter is_latency_line
        (summary_head srv n dur st @ error_breakdown st @ [NoSuccessfulLookups]) = []"
    using filter_head_breakdown(3) [of srv n dur st] by simp
  moreover from stddev_lines [of srv n dur st]
  have "\<exists>ls. print_summary srv n dur st = Inr ls \<and>
         (filter is_stddev_line ls \<noteq> [] \<longleftrightarrow> 2 \<le> length (timings st))"
    by auto
  ultimately show ?thesis by blast
qed

theorem empty_latencies_no_statistics_witness:
  "timings (acc failing_final) = [] \<and>
   print_summary demo_servers 4 (5/2) (acc failing_final) =
     Inr [TestSummaryHeader, DnsServersTested [''192.168.0.2''], TotalDomainsTested 4,
          TotalProcessingTime (5/2), SuccessfulLookups 0, FailedLookups 4,
          ErrorBreakdownHeader, ErrorEntry ''Timeout'' 2, ErrorEntry ''NoAnswer'' 1,
          ErrorEntry ''NXDOMAIN'' 1, NoSuccessfulLookups]"
  using empty_latencies_no_statistics [of "acc failing_final" demo_servers 4 "5/2"]
  by (simp add: failing_final_def summary_head_def error_breakdown_def sorted_errors_def
      sorted_reverse_def demo_servers_def)

text \<open>
  Claim C10. When a run ends without a successful lookup, the summary has no line for
  the overall throughput, whatever the number of failures and the total duration: the
  summary ends with the notice that there are no successful lookups.
\<close>

theorem no_success_no_throughput_line:
  assumes "run (length ds) t0 evs (init_state N srv ds) = Inr s"
    and "successful_lookups (acc s) = 0"
  shows "print_summary srv (length ds) dur (acc s) =
           Inr (summary_head srv (length ds) dur (acc s) @ error_breakdown (acc s) @
                [NoSuccessfulLookups]) \<and>
         filter is_qps_line
           (summary_head srv (length ds) dur (acc s) @ error_breakdown (acc s) @
            [NoSuccessfulLookups]) = []"
proof -
  from inv_run [OF assms(1)] assms(2) have "timings (acc s) = []"
    by (simp add: inv_def inv_acc_def)
  then have "print_summary srv (length ds) dur (acc s) =
           Inr (summary_head srv (length ds) dur (acc s) @ error_breakdown (acc s) @
                [NoSuccessfulLookups])"
    by (simp add: print_summary_def performance_metrics_empty bindE_simps)
  moreover have "filter is_qps_line
           (summary_head srv (length ds) dur (acc s) @ error_breakdown (acc s) @
            [NoSuccessfulLookups]) = []"
    using filter_head_breakdown(1) [of srv "length ds" dur "acc s"] by simp
  ultimately show ?thesis by blast
qed

text \<open>Four failures in two and a half seconds: no throughput line.\<close>

theorem no_success_no_throughput_line_witness:
  "run (length failing_domains) 0 failing_schedule (init_state 2 demo_servers failing_domains)
     = Inr failing_final \<and>
   successful_lookups (acc failing_final) = 0 \<and> 0 < failed_lookups (acc failing_final) \<and>
   (0::real) < 5/2 \<and>
   print_summary demo_servers (length failing_domains) (5/2) (acc failing_final) =
     Inr [TestSummaryHeader, DnsServersTested [''192.168.0.2''], TotalDomainsTested 4,
          TotalProcessingTime (5/2), SuccessfulLookups 0, FailedLookups 4,
          ErrorBreakdownHeader, ErrorEntry ''Timeout'' 2, ErrorEntry ''NoAnswer'' 1,
          ErrorEntry ''NXDOMAIN'' 1, NoSuccessfulLookups]"
proof -
  have z: "successful_lookups (acc failing_final) = 0" "0 < failed_lookups (acc failing_final)"
    by (simp_all add: failing_final_def)
  have e: "summary_head demo_servers (length failing_domains) (5/2) (acc failing_final) @
           error_breakdown (acc failing_final) @ [NoSuccessfulLookups] =
     [TestSummaryHeader, DnsServersTested [''192.168.0.2''], TotalDomainsTested 4,
          TotalProcessingTime (5/2), SuccessfulLookups 0, FailedLookups 4,
          ErrorBreakdownHeader, ErrorEntry ''Timeout'' 2, ErrorEntry ''NoAnswer'' 1,
          ErrorEntry ''NXDOMAIN'' 1, NoSuccessfulLookups]"
    by (simp add: failing_final_def summary_head_def error_breakdown_def sorted_errors_def
        sorted_reverse_def demo_servers_def failing_length)
  from no_success_no_throughput_line [OF failing_run_len z(1), where dur = "5/2"]
  have "print_summary demo_servers (length failing_domains) (5/2) (acc failing_final) =
     Inr [TestSummaryHeader, DnsServersTested [''192.168.0.2''], TotalDomainsTested 4,
          TotalProcessingTime (5/2), SuccessfulLookups 0, FailedLookups 4,
          ErrorBreakdownHeader, ErrorEntry ''Timeout'' 2, ErrorEntry ''NoAnswer'' 1,
          ErrorEntry ''NXDOMAIN'' 1, NoSuccessfulLookups]"
    by (simp only: e)
  with failing_run_len z show ?thesis by simp
qed

end
